theory Spec2Isabelle
  imports Complex_Main "HOL-Library.Word" "HOL-Library.Log_Nat"
begin

unbundle bit_operations_syntax

section \<open>IEEE binary64 values, as far as PerfEvent uses them\<close>

text \<open>
  The header computes with \<^verbatim>\<open>double\<close>. A double is kept in sign and magnitude, the way the
  format stores it: \<open>Finite s m\<close> is the finite value of magnitude \<open>m\<close> (a non-negative
  rational) and sign \<open>s\<close> (\<open>True\<close> for negative, so that both zeros exist),
  \<open>Infinity s\<close> the two infinities, \<open>NaN\<close> the not-a-number results.
\<close>

datatype double = Finite bool rat | Infinity bool | NaN

text \<open>\<open>ilog2 q\<close> is the binary exponent of a positive rational: \<open>2 powi ilog2 q \<le> q < 2 powi (ilog2 q + 1)\<close>.\<close>

definition ilog2 :: "rat \<Rightarrow> int" where
  "ilog2 q = (if 1 \<le> q then bitlen \<lfloor>q\<rfloor> - 1 else - bitlen (\<lceil>1 / q\<rceil> - 1))"

text \<open>
  The exponent of the unit in the last place: 53 significant bits, and never below the
  subnormal quantum \<open>2 powi - 1074\<close>.
\<close>

definition ulp_exp :: "rat \<Rightarrow> int" where
  "ulp_exp q = max (ilog2 q - 52) (- 1074)"

text \<open>Rounding to the nearest integer, ties to the even one.\<close>

definition round_half_even :: "rat \<Rightarrow> int" where
  "round_half_even x =
     (let f = \<lfloor>x\<rfloor>; r = x - of_int f
      in if r < 1 / 2 then f
         else if 1 / 2 < r then f + 1
         else if even f then f else f + 1)"

text \<open>
  \<open>rnd s q\<close> rounds the exact magnitude \<open>q\<close> of a result of sign \<open>s\<close> to binary64 in the
  default mode (to nearest, ties to even); a rounded magnitude of \<open>2 ^ 1024\<close> or more
  overflows to the infinity of that sign.
\<close>

definition rnd :: "bool \<Rightarrow> rat \<Rightarrow> double" where
  "rnd s q =
     (if q = 0 then Finite s 0
      else let e = ulp_exp q;
               r = of_int (round_half_even (q / 2 powi e)) * 2 powi e
           in if 2 ^ 1024 \<le> r then Infinity s else Finite s r)"

fun dmul :: "double \<Rightarrow> double \<Rightarrow> double" where
  "dmul NaN _ = NaN"
| "dmul _ NaN = NaN"
| "dmul (Infinity s) (Infinity t) = Infinity (s \<noteq> t)"
| "dmul (Infinity s) (Finite t b) = (if b = 0 then NaN else Infinity (s \<noteq> t))"
| "dmul (Finite s a) (Infinity t) = (if a = 0 then NaN else Infinity (s \<noteq> t))"
| "dmul (Finite s a) (Finite t b) = rnd (s \<noteq> t) (a * b)"

fun ddiv :: "double \<Rightarrow> double \<Rightarrow> double" where
  "ddiv NaN _ = NaN"
| "ddiv _ NaN = NaN"
| "ddiv (Infinity s) (Infinity t) = NaN"
| "ddiv (Infinity s) (Finite t b) = Infinity (s \<noteq> t)"
| "ddiv (Finite s a) (Infinity t) = Finite (s \<noteq> t) 0"
| "ddiv (Finite s a) (Finite t b) =
     (if b = 0 then (if a = 0 then NaN else Infinity (s \<noteq> t))
      else rnd (s \<noteq> t) (a / b))"

text \<open>The conversions \<^verbatim>\<open>uint64_t\<close> to \<^verbatim>\<open>double\<close> and \<^verbatim>\<open>int\<close> to \<^verbatim>\<open>double\<close>.\<close>

definition u64_to_double :: "64 word \<Rightarrow> double" where
  "u64_to_double w = rnd False (of_nat (unat w))"

definition int_to_double :: "int \<Rightarrow> double" where
  "int_to_double i = rnd (i < 0) (of_int \<bar>i\<bar>)"

section \<open>The event and its multiplexing correction\<close>

text \<open>
  \<^verbatim>\<open>struct read_format\<close>: what one \<^verbatim>\<open>read\<close> of a counter yields (the first three fields; \<open>rf_id\<close>
  is never written).
\<close>

record read_format =
  rf_value :: "64 word"
  time_enabled :: "64 word"
  time_running :: "64 word"
  rf_id :: "64 word"


text \<open>
  \<^verbatim>\<open>perf_event_attr\<close> is declared by \<^verbatim>\<open>linux/perf_event.h\<close>, which is not part of the repository.
  The record holds the fields \<^verbatim>\<open>registerCounter\<close> assigns; every other field of the structure is
  zeroed by the \<^verbatim>\<open>memset\<close> and never touched again. \<^verbatim>\<open>type\<close> and \<^verbatim>\<open>size\<close> are 32-bit fields,
  \<^verbatim>\<open>config\<close> and \<^verbatim>\<open>read_format\<close> 64-bit ones, the rest one-bit flags.
\<close>

record perf_event_attr =
  attr_type :: "32 word"
  attr_size :: "32 word"
  config :: "64 word"
  attr_read_format :: "64 word"
  disabled :: bool
  inherit :: bool
  inherit_stat :: bool
  exclude_user :: bool
  exclude_kernel :: bool
  exclude_hv :: bool

record event =
  pe :: perf_event_attr
  fd :: int
  prev :: read_format
  data :: read_format

text \<open>
  The three differences are taken in \<^verbatim>\<open>uint64_t\<close> (they wrap), converted to \<^verbatim>\<open>double\<close>, and
  divided and multiplied there.
\<close>

definition readCounter :: "event \<Rightarrow> double" where
  "readCounter ev =
     (let multiplexingCorrection =
            ddiv (u64_to_double (time_enabled (data ev) - time_enabled (prev ev)))
                 (u64_to_double (time_running (data ev) - time_running (prev ev)))
      in dmul (u64_to_double (rf_value (data ev) - rf_value (prev ev))) multiplexingCorrection)"

section \<open>The registry\<close>

text \<open>
  \<^verbatim>\<open>struct PerfEvent\<close>. The two time points are steady-clock tick counts (nanoseconds).
  \<^verbatim>\<open>names[i]\<close> is read for every \<open>i < events.size()\<close>, which C++ defines only while \<open>names\<close> is
  at least as long as \<open>events\<close>; \<open>same_length\<close> is that condition, and every statement about an
  arbitrary registry assumes it (the constructor establishes it, starting and stopping keep
  it). The loop counters are \<^verbatim>\<open>unsigned\<close> and modelled by \<open>nat\<close>.
\<close>

record PerfEvent =
  events :: "event list"
  names :: "string list"
  startTime :: int
  stopTime :: int
  params :: "(string \<times> string) list"
  printHeader :: bool

definition same_length :: "PerfEvent \<Rightarrow> bool" where
  "same_length r = (length (names r) = length (events r))"

section \<open>The kernel and the other collaborators\<close>

text \<open>
  Every call that leaves the object is recorded, in order, with what it returned: the
  \<^verbatim>\<open>perf_event_open\<close> system call (attribute block, result), the three \<^verbatim>\<open>ioctl\<close> requests and
  \<^verbatim>\<open>close\<close> (descriptor; their results are ignored by the code), \<^verbatim>\<open>read\<close> of 24 bytes
  (descriptor, return value, the 64-bit fields the kernel stored into the buffer),
  \<^verbatim>\<open>steady_clock::now()\<close> (tick count) and a line written to \<^verbatim>\<open>std::cerr\<close>.
\<close>

datatype call =
    PerfEventOpen perf_event_attr int
  | IoctlReset int
  | IoctlEnable int
  | IoctlDisable int
  | Read int int "64 word list"
  | Close int
  | SteadyClockNow int
  | Cerr string

text \<open>
  The kernel is any function of the calls made so far: nothing is assumed about what it
  answers, and since the record grows with every call, any sequence of answers is the
  behaviour of some kernel. \<open>perf_event_open\<close> gives the result as it is stored in the
  \<^verbatim>\<open>int\<close> field \<open>fd\<close>, \<open>read_counter\<close> the return value of \<^verbatim>\<open>read\<close> and the fields it
  stored, \<open>steady_clock_now\<close> the tick count.
\<close>

record kernel =
  perf_event_open :: "call list \<Rightarrow> perf_event_attr \<Rightarrow> int"
  read_counter :: "call list \<Rightarrow> int \<Rightarrow> int \<times> 64 word list"
  steady_clock_now :: "call list \<Rightarrow> int"

text \<open>A read stores whole fields from the start of the buffer; at most three fit into 24 bytes.\<close>

fun store_fields :: "64 word list \<Rightarrow> read_format \<Rightarrow> read_format" where
  "store_fields [] rf = rf"
| "store_fields [v] rf = rf\<lparr>rf_value := v\<rparr>"
| "store_fields [v, e] rf = rf\<lparr>rf_value := v, time_enabled := e\<rparr>"
| "store_fields (v # e # t # _) rf = rf\<lparr>rf_value := v, time_enabled := e, time_running := t\<rparr>"

section \<open>Construction\<close>

text \<open>Constants of \<^verbatim>\<open>linux/perf_event.h\<close> (the kernel's user-space interface).\<close>

definition PERF_TYPE_HARDWARE :: "64 word" where "PERF_TYPE_HARDWARE = 0"
definition PERF_TYPE_SOFTWARE :: "64 word" where "PERF_TYPE_SOFTWARE = 1"
definition PERF_TYPE_HW_CACHE :: "64 word" where "PERF_TYPE_HW_CACHE = 3"
definition PERF_TYPE_RAW :: "64 word" where "PERF_TYPE_RAW = 4"
definition PERF_COUNT_HW_CPU_CYCLES :: "64 word" where "PERF_COUNT_HW_CPU_CYCLES = 0"
definition PERF_COUNT_HW_INSTRUCTIONS :: "64 word" where "PERF_COUNT_HW_INSTRUCTIONS = 1"
definition PERF_COUNT_HW_CACHE_MISSES :: "64 word" where "PERF_COUNT_HW_CACHE_MISSES = 3"
definition PERF_COUNT_HW_BRANCH_MISSES :: "64 word" where "PERF_COUNT_HW_BRANCH_MISSES = 5"
definition PERF_COUNT_HW_CACHE_L1D :: "64 word" where "PERF_COUNT_HW_CACHE_L1D = 0"
definition PERF_COUNT_HW_CACHE_OP_READ :: "64 word" where "PERF_COUNT_HW_CACHE_OP_READ = 0"
definition PERF_COUNT_HW_CACHE_RESULT_MISS :: "64 word" where "PERF_COUNT_HW_CACHE_RESULT_MISS = 1"
definition PERF_COUNT_SW_TASK_CLOCK :: "64 word" where "PERF_COUNT_SW_TASK_CLOCK = 1"
definition PERF_FORMAT_TOTAL_TIME_ENABLED :: "64 word" where "PERF_FORMAT_TOTAL_TIME_ENABLED = 1"
definition PERF_FORMAT_TOTAL_TIME_RUNNING :: "64 word" where "PERF_FORMAT_TOTAL_TIME_RUNNING = 2"

text \<open>\<^verbatim>\<open>event()\<close> is value-initialised: every field is zero.\<close>

definition zero_read_format :: read_format where
  "zero_read_format = \<lparr>rf_value = 0, time_enabled = 0, time_running = 0, rf_id = 0\<rparr>"

definition zero_attr :: perf_event_attr where
  "zero_attr = \<lparr>attr_type = 0, attr_size = 0, config = 0, attr_read_format = 0,
     disabled = False, inherit = False, inherit_stat = False, exclude_user = False,
     exclude_kernel = False, exclude_hv = False\<rparr>"

definition new_event :: event where
  "new_event = \<lparr>pe = zero_attr, fd = 0, prev = zero_read_format, data = zero_read_format\<rparr>"

text \<open>
  \<open>sz\<close> stands for \<^verbatim>\<open>sizeof(struct perf_event_attr)\<close>, which depends on the version of the
  kernel header.
\<close>

definition registerCounter ::
  "32 word \<Rightarrow> string \<Rightarrow> 64 word \<Rightarrow> 64 word \<Rightarrow> bool \<Rightarrow> PerfEvent \<Rightarrow> PerfEvent" where
  "registerCounter sz name type eventID excl_user r =
     (let ev = new_event;
          attr = zero_attr
            \<lparr>attr_type := ucast type,
             attr_size := sz,
             config := eventID,
             disabled := True,
             inherit := True,
             inherit_stat := False,
             exclude_user := excl_user,
             exclude_kernel := False,
             exclude_hv := False,
             attr_read_format := PERF_FORMAT_TOTAL_TIME_ENABLED OR PERF_FORMAT_TOTAL_TIME_RUNNING\<rparr>
      in r\<lparr>names := names r @ [name], events := events r @ [ev\<lparr>pe := attr\<rparr>]\<rparr>)"

text \<open>The member initialisers: empty vectors and map, \<open>printHeader(true)\<close>.\<close>

definition PerfEvent_init :: PerfEvent where
  "PerfEvent_init =
     \<lparr>events = [], names = [], startTime = 0, stopTime = 0, params = [], printHeader = True\<rparr>"

definition register_defaults :: "32 word \<Rightarrow> PerfEvent \<Rightarrow> PerfEvent" where
  "register_defaults sz r0 =
     (let r1 = registerCounter sz ''cycle'' PERF_TYPE_HARDWARE PERF_COUNT_HW_CPU_CYCLES False r0;
          r2 = registerCounter sz ''kcycle'' PERF_TYPE_HARDWARE PERF_COUNT_HW_CPU_CYCLES True r1;
          r3 = registerCounter sz ''scycle'' PERF_TYPE_RAW 0x43FFAE False r2;
          r4 = registerCounter sz ''instr'' PERF_TYPE_HARDWARE PERF_COUNT_HW_INSTRUCTIONS False r3;
          r5 = registerCounter sz ''L1-miss'' PERF_TYPE_HW_CACHE
                 (PERF_COUNT_HW_CACHE_L1D OR push_bit 8 PERF_COUNT_HW_CACHE_OP_READ
                    OR push_bit 16 PERF_COUNT_HW_CACHE_RESULT_MISS) False r4;
          r6 = registerCounter sz ''LLC-miss'' PERF_TYPE_HARDWARE PERF_COUNT_HW_CACHE_MISSES False r5;
          r7 = registerCounter sz ''br-miss'' PERF_TYPE_HARDWARE PERF_COUNT_HW_BRANCH_MISSES False r6;
          r8 = registerCounter sz ''task'' PERF_TYPE_SOFTWARE PERF_COUNT_SW_TASK_CLOCK False r7
      in r8)"

text \<open>
  The opening loop of the constructor. A negative result reports the counter's name, empties
  both vectors and returns at once.
\<close>

function open_loop :: "kernel \<Rightarrow> nat \<Rightarrow> PerfEvent \<Rightarrow> call list \<Rightarrow> PerfEvent \<times> call list" where
  "open_loop K i r h =
     (if i < length (events r) then
        let ev = events r ! i;
            ret = perf_event_open K h (pe ev);
            h1 = h @ [PerfEventOpen (pe ev) ret];
            r1 = r\<lparr>events := (events r)[i := ev\<lparr>fd := ret\<rparr>]\<rparr>
        in if ret < 0
           then (r1\<lparr>events := [], names := []\<rparr>,
                 h1 @ [Cerr (''Error opening counter '' @ names r ! i)])
           else open_loop K (i + 1) r1 h1
      else (r, h))"
  by pat_completeness auto
termination
  by (relation "measure (\<lambda>(K, i, r, h). length (events r) - i)") auto

declare open_loop.simps [simp del]

definition PerfEvent_ctor :: "32 word \<Rightarrow> kernel \<Rightarrow> call list \<Rightarrow> PerfEvent \<times> call list" where
  "PerfEvent_ctor sz K h = open_loop K 0 (register_defaults sz PerfEvent_init) h"

section \<open>Starting, stopping, destroying\<close>

function start_loop :: "kernel \<Rightarrow> nat \<Rightarrow> PerfEvent \<Rightarrow> call list \<Rightarrow> PerfEvent \<times> call list" where
  "start_loop K i r h =
     (if i < length (events r) then
        let ev = events r ! i;
            h1 = h @ [IoctlReset (fd ev)];
            h2 = h1 @ [IoctlEnable (fd ev)];
            (ret, stored) = read_counter K h2 (fd ev);
            h3 = h2 @ [Read (fd ev) ret stored];
            r1 = r\<lparr>events := (events r)[i := ev\<lparr>prev := store_fields stored (prev ev)\<rparr>]\<rparr>;
            h4 = (if ret \<noteq> 24 then h3 @ [Cerr (''Error reading counter '' @ names r ! i)] else h3)
        in start_loop K (i + 1) r1 h4
      else (r, h))"
  by pat_completeness auto
termination
  by (relation "measure (\<lambda>(K, i, r, h). length (events r) - i)") auto

declare start_loop.simps [simp del]

definition startCounters :: "kernel \<Rightarrow> PerfEvent \<times> call list \<Rightarrow> PerfEvent \<times> call list" where
  "startCounters K st =
     (let (r1, h1) = start_loop K 0 (fst st) (snd st);
          t = steady_clock_now K h1
      in (r1\<lparr>startTime := t\<rparr>, h1 @ [SteadyClockNow t]))"

function stop_loop :: "kernel \<Rightarrow> nat \<Rightarrow> PerfEvent \<Rightarrow> call list \<Rightarrow> PerfEvent \<times> call list" where
  "stop_loop K i r h =
     (if i < length (events r) then
        let ev = events r ! i;
            (ret, stored) = read_counter K h (fd ev);
            h1 = h @ [Read (fd ev) ret stored];
            r1 = r\<lparr>events := (events r)[i := ev\<lparr>data := store_fields stored (data ev)\<rparr>]\<rparr>;
            h2 = (if ret \<noteq> 24 then h1 @ [Cerr (''Error reading counter '' @ names r ! i)] else h1);
            h3 = h2 @ [IoctlDisable (fd ev)]
        in stop_loop K (i + 1) r1 h3
      else (r, h))"
  by pat_completeness auto
termination
  by (relation "measure (\<lambda>(K, i, r, h). length (events r) - i)") auto

declare stop_loop.simps [simp del]

definition stopCounters :: "kernel \<Rightarrow> PerfEvent \<times> call list \<Rightarrow> PerfEvent \<times> call list" where
  "stopCounters K st =
     (let t = steady_clock_now K (snd st);
          h1 = snd st @ [SteadyClockNow t]
      in stop_loop K 0 ((fst st)\<lparr>stopTime := t\<rparr>) h1)"

text \<open>The destructor closes the descriptor of every event that is still in the vector.\<close>

definition PerfEvent_dtor :: "PerfEvent \<times> call list \<Rightarrow> call list" where
  "PerfEvent_dtor st = foldl (\<lambda>h ev. h @ [Close (fd ev)]) (snd st) (events (fst st))"

section \<open>Reading\<close>

text \<open>\<^verbatim>\<open>return -1;\<close> converts the integer to \<^verbatim>\<open>double\<close>.\<close>

function getCounter_loop :: "PerfEvent \<Rightarrow> string \<Rightarrow> nat \<Rightarrow> double" where
  "getCounter_loop r name i =
     (if i < length (events r) then
        if names r ! i = name then readCounter (events r ! i)
        else getCounter_loop r name (i + 1)
      else int_to_double (- 1))"
  by pat_completeness auto
termination
  by (relation "measure (\<lambda>(r, name, i). length (events r) - i)") auto

declare getCounter_loop.simps [simp del]

definition getCounter :: "PerfEvent \<Rightarrow> string \<Rightarrow> double" where
  "getCounter r name = getCounter_loop r name 0"

text \<open>
  \<^verbatim>\<open>std::chrono::duration<double>(stopTime - startTime).count()\<close>: the tick difference,
  converted to \<^verbatim>\<open>double\<close> and divided by the ticks per second.
\<close>

definition getDuration :: "PerfEvent \<Rightarrow> double" where
  "getDuration r = ddiv (int_to_double (stopTime r - startTime r)) (Finite False 1000000000)"

definition getIPC :: "PerfEvent \<Rightarrow> double" where
  "getIPC r = ddiv (getCounter r ''instr'') (getCounter r ''cycle'')"

definition getCPUs :: "PerfEvent \<Rightarrow> double" where
  "getCPUs r = ddiv (getCounter r ''task'') (dmul (getDuration r) (Finite False 1000000000))"

definition getGHz :: "PerfEvent \<Rightarrow> double" where
  "getGHz r = ddiv (getCounter r ''cycle'') (getCounter r ''task'')"

text \<open>
  Output streams. What is written to a stream is kept as a list of pieces: the column a
  \<^verbatim>\<open>printCounter\<close> call writes to the header stream (the name, padded to the wider of name
  and formatted value, a comma if asked for, a blank), the column it writes to the data
  stream (the formatted value, padded alike), and the line end of \<^verbatim>\<open>std::endl\<close>. How a value
  is formatted is outside the model; a piece carries the value itself.
\<close>

datatype cell = DoubleCell double | U64Cell "64 word"

datatype piece = NameColumn string cell bool | ValueColumn string cell bool | LineEnd

text \<open>\<^verbatim>\<open>printCounter\<close> (the overload for a number) appends one column to each of the two streams.\<close>

definition printCounter ::
  "string \<Rightarrow> cell \<Rightarrow> bool \<Rightarrow> piece list \<times> piece list \<Rightarrow> piece list \<times> piece list" where
  "printCounter name counterValue addComma streams =
     (fst streams @ [NameColumn name counterValue addComma],
      snd streams @ [ValueColumn name counterValue addComma])"

text \<open>
  \<^verbatim>\<open>printReport(std::ostream& headerOut, std::ostream& dataOut, uint64_t)\<close>: nothing for a
  registry without events; otherwise one column per counter, then the scale and the three
  derived metrics. The argument and result are the contents of the header and data streams.
\<close>

definition printReport_header_data ::
  "PerfEvent \<Rightarrow> 64 word \<Rightarrow> piece list \<times> piece list \<Rightarrow> piece list \<times> piece list" where
  "printReport_header_data r normalizationConstant streams =
     (if length (events r) = 0 then streams
      else
        let s1 = foldl (\<lambda>s i. printCounter (names r ! i)
                            (DoubleCell (ddiv (readCounter (events r ! i))
                                              (u64_to_double normalizationConstant))) True s)
                   streams [0..<length (events r)];
            s2 = printCounter ''scale'' (U64Cell normalizationConstant) True s1;
            s3 = printCounter ''IPC'' (DoubleCell (getIPC r)) True s2;
            s4 = printCounter ''CPU'' (DoubleCell (getCPUs r)) True s3;
            s5 = printCounter ''GHz'' (DoubleCell (getGHz r)) False s4
        in s5)"

text \<open>
  \<^verbatim>\<open>printReport(std::ostream& out, uint64_t)\<close>: the report is built in two fresh string streams
  and written to \<open>out\<close> as a header line and a data line, each ended by \<^verbatim>\<open>std::endl\<close>.
\<close>

definition printReport :: "PerfEvent \<Rightarrow> 64 word \<Rightarrow> piece list \<Rightarrow> piece list" where
  "printReport r normalizationConstant out =
     (let (header, data) = printReport_header_data r normalizationConstant ([], [])
      in out @ header @ [LineEnd] @ data @ [LineEnd])"

section \<open>Reading the record of calls\<close>

definition open_results :: "call list \<Rightarrow> int list" where
  "open_results cs = concat (map (\<lambda>c. case c of PerfEventOpen a ret \<Rightarrow> [ret] | _ \<Rightarrow> []) cs)"

definition open_attrs :: "call list \<Rightarrow> perf_event_attr list" where
  "open_attrs cs = concat (map (\<lambda>c. case c of PerfEventOpen a ret \<Rightarrow> [a] | _ \<Rightarrow> []) cs)"

definition closed_fds :: "call list \<Rightarrow> int list" where
  "closed_fds cs = concat (map (\<lambda>c. case c of Close d \<Rightarrow> [d] | _ \<Rightarrow> []) cs)"

text \<open>
  \<open>answered K h cs\<close>: the calls \<open>cs\<close>, made after the calls \<open>h\<close>, carry the results the
  kernel \<open>K\<close> gives at the moment of each call.
\<close>

fun answered :: "kernel \<Rightarrow> call list \<Rightarrow> call list \<Rightarrow> bool" where
  "answered K h [] = True"
| "answered K h (PerfEventOpen a ret # cs) =
     (ret = perf_event_open K h a \<and> answered K (h @ [PerfEventOpen a ret]) cs)"
| "answered K h (Read d ret stored # cs) =
     ((ret, stored) = read_counter K h d \<and> answered K (h @ [Read d ret stored]) cs)"
| "answered K h (SteadyClockNow t # cs) =
     (t = steady_clock_now K h \<and> answered K (h @ [SteadyClockNow t]) cs)"
| "answered K h (c # cs) = answered K (h @ [c]) cs"

section \<open>Sample inputs\<close>

text \<open>A counter that ran the whole window: baseline (5, 100, 100), final (1005, 1100, 1100).\<close>

definition plain_event :: event where
  "plain_event =
     \<lparr>pe = zero_attr, fd = 3,
      prev = \<lparr>rf_value = 5, time_enabled = 100, time_running = 100, rf_id = 0\<rparr>,
      data = \<lparr>rf_value = 1005, time_enabled = 1100, time_running = 1100, rf_id = 0\<rparr>\<rparr>"

text \<open>A counter that ran the whole window and counted \<open>2 ^ 53 + 1\<close> events from a zero baseline.\<close>

definition big_delta_event :: event where
  "big_delta_event =
     \<lparr>pe = zero_attr, fd = 3, prev = zero_read_format,
      data = \<lparr>rf_value = 9007199254740993, time_enabled = 1, time_running = 1, rf_id = 0\<rparr>\<rparr>"

text \<open>
  A counter with a zero baseline that ran the whole window (equal enabled and running
  times) and counted \<open>n\<close>.
\<close>

definition counted_event :: "64 word \<Rightarrow> event" where
  "counted_event n =
     \<lparr>pe = zero_attr, fd = 3, prev = zero_read_format,
      data = \<lparr>rf_value = n, time_enabled = 7, time_running = 7, rf_id = 0\<rparr>\<rparr>"

text \<open>
  Two synthetic registries; the first registers the name \<open>instr\<close> twice and measured a
  window of two seconds.
\<close>

definition ipc_registry :: PerfEvent where
  "ipc_registry = PerfEvent_init
     \<lparr>events := [counted_event 1000, counted_event 500, counted_event 77,
                 counted_event 3000000000],
      names := [''instr'', ''cycle'', ''instr'', ''task''],
      startTime := 1000, stopTime := 2000001000\<rparr>"

definition ghz_registry :: PerfEvent where
  "ghz_registry = PerfEvent_init
     \<lparr>events := [counted_event 3000000000, counted_event 1000000000, counted_event 1],
      names := [''cycle'', ''task'', ''instr'']\<rparr>"

text \<open>A synthetic registry whose window lasted one and a half seconds.\<close>

definition cpus_registry :: PerfEvent where
  "cpus_registry = PerfEvent_init
     \<lparr>events := [counted_event 3000000000, counted_event 7, counted_event 2],
      names := [''task'', ''instr'', ''cycle''],
      startTime := 1000, stopTime := 1500001000\<rparr>"

text \<open>
  \<open>plain_count ev n\<close>: the event counted \<open>n\<close> between its two snapshots and was running for
  all of the time it was enabled.
\<close>

definition plain_count :: "event \<Rightarrow> 64 word \<Rightarrow> bool" where
  "plain_count ev n =
     (rf_value (data ev) - rf_value (prev ev) = n \<and>
      time_enabled (data ev) - time_enabled (prev ev)
        = time_running (data ev) - time_running (prev ev) \<and>
      time_running (data ev) - time_running (prev ev) \<noteq> 0)"

section \<open>The calls a loop is expected to make\<close>

text \<open>
  What the three loops should do, written over the list of registered counters (event and
  name) and the list of answers the kernel gave, one per counter.

  Opening: one \<^verbatim>\<open>perf_event_open\<close> per counter, a failure followed by its diagnostic.
\<close>

fun open_calls :: "(event \<times> string) list \<Rightarrow> int list \<Rightarrow> call list" where
  "open_calls ((ev, n) # rest) (ret # rets) =
     PerfEventOpen (pe ev) ret
       # (if ret < 0 then [Cerr (''Error opening counter '' @ n)] else []) @ open_calls rest rets"
| "open_calls _ _ = []"

definition set_fds :: "event list \<Rightarrow> int list \<Rightarrow> event list" where
  "set_fds evs rets = map (\<lambda>(ev, ret). ev\<lparr>fd := ret\<rparr>) (zip evs rets)"

text \<open>
  Starting: per counter reset, enable, read the baseline; a read that does not return 24
  is followed by its diagnostic.
\<close>

fun start_calls :: "(event \<times> string) list \<Rightarrow> (int \<times> 64 word list) list \<Rightarrow> call list" where
  "start_calls ((ev, n) # rest) ((ret, stored) # rs) =
     [IoctlReset (fd ev), IoctlEnable (fd ev), Read (fd ev) ret stored]
       @ (if ret \<noteq> 24 then [Cerr (''Error reading counter '' @ n)] else [])
       @ start_calls rest rs"
| "start_calls _ _ = []"

definition set_prevs :: "event list \<Rightarrow> (int \<times> 64 word list) list \<Rightarrow> event list" where
  "set_prevs evs rs = map (\<lambda>(ev, ret, stored). ev\<lparr>prev := store_fields stored (prev ev)\<rparr>) (zip evs rs)"

text \<open>Stopping: per counter read the final snapshot (with the same diagnostic), then disable.\<close>

fun stop_calls :: "(event \<times> string) list \<Rightarrow> (int \<times> 64 word list) list \<Rightarrow> call list" where
  "stop_calls ((ev, n) # rest) ((ret, stored) # rs) =
     [Read (fd ev) ret stored]
       @ (if ret \<noteq> 24 then [Cerr (''Error reading counter '' @ n)] else [])
       @ [IoctlDisable (fd ev)]
       @ stop_calls rest rs"
| "stop_calls _ _ = []"

definition set_datas :: "event list \<Rightarrow> (int \<times> 64 word list) list \<Rightarrow> event list" where
  "set_datas evs rs = map (\<lambda>(ev, ret, stored). ev\<lparr>data := store_fields stored (data ev)\<rparr>) (zip evs rs)"

section \<open>Whole lifetimes\<close>

text \<open>
  The attribute block a registration asks for, field by field: initially disabled, inherited
  by children, no per-task inherited statistics, kernel and hypervisor not excluded, and the
  enabled and running times reported with the value.
\<close>

definition requested_attr :: "32 word \<Rightarrow> 64 word \<Rightarrow> 64 word \<Rightarrow> bool \<Rightarrow> perf_event_attr" where
  "requested_attr sz type eventID excl_user =
     \<lparr>attr_type = ucast type, attr_size = sz, config = eventID,
      attr_read_format = PERF_FORMAT_TOTAL_TIME_ENABLED OR PERF_FORMAT_TOTAL_TIME_RUNNING,
      disabled = True, inherit = True, inherit_stat = False, exclude_user = excl_user,
      exclude_kernel = False, exclude_hv = False\<rparr>"

text \<open>Registering a list of counters (name, type, event code, user-space exclusion) in order.\<close>

definition register_all ::
  "32 word \<Rightarrow> (string \<times> 64 word \<times> 64 word \<times> bool) list \<Rightarrow> PerfEvent \<Rightarrow> PerfEvent" where
  "register_all sz specs r =
     foldl (\<lambda>r (name, type, eventID, excl_user). registerCounter sz name type eventID excl_user r)
       r specs"

text \<open>The eight registrations of the constructor, as such a list.\<close>

definition default_counters :: "(string \<times> 64 word \<times> 64 word \<times> bool) list" where
  "default_counters =
     [(''cycle'', PERF_TYPE_HARDWARE, PERF_COUNT_HW_CPU_CYCLES, False),
      (''kcycle'', PERF_TYPE_HARDWARE, PERF_COUNT_HW_CPU_CYCLES, True),
      (''scycle'', PERF_TYPE_RAW, 0x43FFAE, False),
      (''instr'', PERF_TYPE_HARDWARE, PERF_COUNT_HW_INSTRUCTIONS, False),
      (''L1-miss'', PERF_TYPE_HW_CACHE,
         PERF_COUNT_HW_CACHE_L1D OR push_bit 8 PERF_COUNT_HW_CACHE_OP_READ
           OR push_bit 16 PERF_COUNT_HW_CACHE_RESULT_MISS, False),
      (''LLC-miss'', PERF_TYPE_HARDWARE, PERF_COUNT_HW_CACHE_MISSES, False),
      (''br-miss'', PERF_TYPE_HARDWARE, PERF_COUNT_HW_BRANCH_MISSES, False),
      (''task'', PERF_TYPE_SOFTWARE, PERF_COUNT_SW_TASK_CLOCK, False)]"

text \<open>A caller's use of a registry between construction and destruction.\<close>

datatype op = Start | Stop

fun run_ops :: "kernel \<Rightarrow> op list \<Rightarrow> PerfEvent \<times> call list \<Rightarrow> PerfEvent \<times> call list" where
  "run_ops K [] st = st"
| "run_ops K (Start # ops) st = run_ops K ops (startCounters K st)"
| "run_ops K (Stop # ops) st = run_ops K ops (stopCounters K st)"

text \<open>Construction, use and destruction of one registry; the result is the record of calls.\<close>

definition lifetime :: "32 word \<Rightarrow> kernel \<Rightarrow> op list \<Rightarrow> call list \<Rightarrow> call list" where
  "lifetime sz K ops h = PerfEvent_dtor (run_ops K ops (PerfEvent_ctor sz K h))"

text \<open>
  Two kernels. The first hands out descriptors 3, 4, 5, ... and answers every read in
  full, except on descriptor 4, where it stores one field and returns 8. The second opens
  one counter (descriptor 3) and refuses every later one.
\<close>

definition full_kernel :: kernel where
  "full_kernel =
     \<lparr>perf_event_open = (\<lambda>h a. 3 + int (length (open_results h))),
      read_counter = (\<lambda>h d. if d = 4 then (8, [42]) else (24, [of_nat (length h), 10, 10])),
      steady_clock_now = (\<lambda>h. int (length h))\<rparr>"

definition leaky_kernel :: kernel where
  "leaky_kernel =
     \<lparr>perf_event_open = (\<lambda>h a. if open_results h = [] then 3 else - 1),
      read_counter = (\<lambda>h d. (24, [of_nat (length h), 10, 10])),
      steady_clock_now = (\<lambda>h. int (length h))\<rparr>"

text \<open>A registry of two opened counters.\<close>

definition two_counters :: PerfEvent where
  "two_counters = PerfEvent_init
     \<lparr>events := [new_event\<lparr>fd := 3\<rparr>, new_event\<lparr>fd := 4\<rparr>], names := [''cycle'', ''instr'']\<rparr>"

text \<open>Whether a call is a reading of the steady clock.\<close>

fun is_clock :: "call \<Rightarrow> bool" where
  "is_clock (SteadyClockNow t) = True"
| "is_clock _ = False"

section \<open>Rounding\<close>

lemma bitlen_pos: "0 < n \<Longrightarrow> 1 \<le> bitlen n"
  using bitlen_eq_zero_iff [of n] bitlen_nonneg [of n] by linarith

lemma ilog2_ge1:
  assumes "1 \<le> q"
  shows "2 powi ilog2 q \<le> q \<and> q < 2 powi (ilog2 q + 1)"
proof -
  define n where "n = \<lfloor>q\<rfloor>"
  have n: "0 < n" using assms by (simp add: n_def)
  have b: "1 \<le> bitlen n" using n by (rule bitlen_pos)
  have il: "ilog2 q = bitlen n - 1" using assms by (simp add: ilog2_def n_def)
  from bitlen_bounds [OF n]
  have lo: "2 ^ nat (bitlen n - 1) \<le> n" and hi: "n < 2 ^ nat (bitlen n)" by simp_all
  have "(2::rat) powi (bitlen n - 1) = of_int (2 ^ nat (bitlen n - 1))"
    using b by (simp add: power_int_nonneg_exp)
  also have "\<dots> \<le> of_int n" using lo by (simp only: of_int_le_iff)
  also have "\<dots> \<le> q" by (simp add: n_def)
  finally have L: "2 powi ilog2 q \<le> q" by (simp add: il)
  have "q < of_int (n + 1)" using floor_correct [of q] by (simp add: n_def)
  also have "\<dots> \<le> of_int (2 ^ nat (bitlen n))" using hi by (simp only: of_int_le_iff)
  also have "\<dots> = (2::rat) powi (bitlen n)" using b by (simp add: power_int_nonneg_exp)
  finally have "q < 2 powi (ilog2 q + 1)" by (simp add: il)
  with L show ?thesis by simp
qed

lemma ilog2_lt1:
  assumes "0 < q" "q < 1"
  shows "2 powi ilog2 q \<le> q \<and> q < 2 powi (ilog2 q + 1)"
proof -
  define y where "y = 1 / q"
  define n where "n = \<lceil>y\<rceil> - 1"
  have y: "1 < y" using assms by (simp add: y_def)
  have qy: "q = 1 / y" by (simp add: y_def)
  have n: "0 < n" using y by (simp add: n_def less_ceiling_iff)
  have b: "1 \<le> bitlen n" using n by (rule bitlen_pos)
  have il: "ilog2 q = - bitlen n" using assms by (simp add: ilog2_def n_def y_def)
  from bitlen_bounds [OF n]
  have lo: "2 ^ nat (bitlen n - 1) \<le> n" and hi: "n < 2 ^ nat (bitlen n)" by simp_all
  have ny: "of_int n < y" by (simp add: n_def) linarith
  have yn: "y \<le> of_int (n + 1)" by (simp add: n_def)
  have "y \<le> of_int (2 ^ nat (bitlen n))"
    using yn hi by (meson int_one_le_iff_zero_less le_less_trans not_le of_int_le_iff order_trans zless_imp_add1_zle)
  also have "\<dots> = (2::rat) powi (bitlen n)" using b by (simp add: power_int_nonneg_exp)
  finally have "1 / 2 powi (bitlen n) \<le> 1 / y" using y by (simp add: frac_le)
  then have "2 powi (- bitlen n) \<le> q" by (simp add: y_def power_int_minus_divide)
  then have L: "2 powi ilog2 q \<le> q" by (simp only: il)
  have "(2::rat) powi (bitlen n - 1) = of_int (2 ^ nat (bitlen n - 1))"
    using b by (simp add: power_int_nonneg_exp)
  also have "\<dots> \<le> of_int n" using lo by (simp only: of_int_le_iff)
  also have "\<dots> < y" by (rule ny)
  finally have "1 / y < 1 / 2 powi (bitlen n - 1)" by (simp add: frac_less2)
  moreover have "(2::rat) powi (- bitlen n + 1) = 1 / 2 powi (bitlen n - 1)"
    using power_int_minus_divide [of "2::rat" "bitlen n - 1"] by simp
  ultimately have "q < 2 powi (- bitlen n + 1)" by (simp add: y_def)
  then have "q < 2 powi (ilog2 q + 1)" by (simp only: il)
  with L show ?thesis by simp
qed

lemma ilog2_bounds:
  assumes "0 < q"
  shows "2 powi ilog2 q \<le> q" and "q < 2 powi (ilog2 q + 1)"
  using ilog2_ge1 [of q] ilog2_lt1 [of q] assms by (cases "1 \<le> q"; simp)+

lemma ilog2_unique:
  assumes "0 < q" "2 powi k \<le> q" "q < 2 powi (k + 1)"
  shows "ilog2 q = k"
proof -
  have "(2::rat) powi k < 2 powi (ilog2 q + 1)"
    using assms(2) ilog2_bounds(2) [OF assms(1)] by simp
  then have "k < ilog2 q + 1"
    using power_int_increasing [of "ilog2 q + 1" k "2::rat"] by (cases "k < ilog2 q + 1"; simp)
  moreover have "(2::rat) powi ilog2 q < 2 powi (k + 1)"
    using assms(3) ilog2_bounds(1) [OF assms(1)] by simp
  then have "ilog2 q < k + 1"
    using power_int_increasing [of "k + 1" "ilog2 q" "2::rat"] by (cases "ilog2 q < k + 1"; simp)
  ultimately show ?thesis by simp
qed

lemma round_half_even_of_int [simp]: "round_half_even (of_int m) = m"
  by (simp add: round_half_even_def)

lemma round_half_even_ge:
  assumes "of_int a \<le> x"
  shows "a \<le> round_half_even x"
proof -
  have "a \<le> \<lfloor>x\<rfloor>" using assms by (simp add: le_floor_iff)
  then show ?thesis by (auto simp: round_half_even_def Let_def)
qed

lemma round_half_even_le:
  assumes "x \<le> of_int b"
  shows "round_half_even x \<le> b"
proof (cases "x = of_int b")
  case True
  then show ?thesis by simp
next
  case False
  with assms have "x < of_int b" by simp
  then have "\<lfloor>x\<rfloor> < b" by (simp add: floor_less_iff)
  then show ?thesis by (auto simp: round_half_even_def Let_def)
qed


lemma ulp_exp_ge: "- 1074 \<le> ulp_exp q"
  by (simp add: ulp_exp_def)

lemma ulp_exp_ge_ilog2: "ilog2 q - 52 \<le> ulp_exp q"
  by (simp add: ulp_exp_def)

text \<open>The scaled significand of a positive magnitude lies below \<open>2 ^ 53\<close>.\<close>

lemma scaled_less:
  assumes "0 < q"
  shows "q / 2 powi ulp_exp q < 2 ^ 53"
proof -
  have "q < 2 powi (ilog2 q + 1)" using assms by (rule ilog2_bounds(2))
  also have "\<dots> \<le> 2 powi (ulp_exp q + 53)"
    using ulp_exp_ge_ilog2 [of q] by (intro power_int_increasing) simp_all
  also have "\<dots> = 2 powi ulp_exp q * 2 ^ 53"
    by (simp add: power_int_add)
  finally show ?thesis by (simp add: pos_divide_less_eq mult.commute)
qed

lemma scaled_ge:
  assumes "0 < q" "- 1074 \<le> ilog2 q - 52"
  shows "2 ^ 52 \<le> q / 2 powi ulp_exp q"
proof -
  have e: "ulp_exp q = ilog2 q - 52" using assms(2) by (simp add: ulp_exp_def)
  have "2 powi ulp_exp q * 2 ^ 52 = (2::rat) powi (ulp_exp q + 52)"
    by (simp add: power_int_add)
  also have "\<dots> \<le> q" using ilog2_bounds(1) [OF assms(1)] by (simp add: e)
  finally show ?thesis by (simp add: pos_le_divide_eq mult.commute)
qed

lemma significand_bounds:
  assumes "0 < q"
  shows "0 \<le> round_half_even (q / 2 powi ulp_exp q)"
    and "round_half_even (q / 2 powi ulp_exp q) \<le> 2 ^ 53"
proof -
  have "of_int 0 \<le> q / 2 powi ulp_exp q" using assms by simp
  then show "0 \<le> round_half_even (q / 2 powi ulp_exp q)" by (rule round_half_even_ge)
  have "q / 2 powi ulp_exp q \<le> of_int (2 ^ 53)" using scaled_less [OF assms] by simp
  then show "round_half_even (q / 2 powi ulp_exp q) \<le> 2 ^ 53" by (rule round_half_even_le)
qed

lemma significand_normal:
  assumes "0 < q" "- 1074 \<le> ilog2 q - 52"
  shows "2 ^ 52 \<le> round_half_even (q / 2 powi ulp_exp q)"
proof -
  have "of_int (2 ^ 52) \<le> q / 2 powi ulp_exp q" using scaled_ge [OF assms] by simp
  then show ?thesis by (rule round_half_even_ge)
qed

text \<open>A value with a significand below \<open>2 ^ 53\<close> and an exponent in range is its own rounding.\<close>

lemma rnd_representable:
  assumes m: "0 < m" "m < 2 ^ 53" and e: "- 1074 \<le> e"
    and q: "q = of_int m * 2 powi e" and fin: "q < 2 ^ 1024"
  shows "rnd s q = Finite s q"
proof -
  have qpos: "0 < q" using m by (simp add: q)
  define k where "k = bitlen m - 1"
  from bitlen_bounds [OF m(1)]
  have lo: "2 ^ nat k \<le> m" and hi: "m < 2 ^ nat (k + 1)" by (simp_all add: k_def)
  have k0: "0 \<le> k" using bitlen_pos [OF m(1)] by (simp add: k_def)
  have k52: "k \<le> 52" using m(2) bitlen_le_iff_power [of m 53] by (simp add: k_def)
  have "(2::rat) powi (k + e) = of_int (2 ^ nat k) * 2 powi e"
    using k0 by (simp add: power_int_add power_int_nonneg_exp)
  also have "\<dots> \<le> of_int m * 2 powi e"
    using lo by (intro mult_right_mono) (simp_all only: of_int_le_iff zero_le_power_int zero_le_numeral)
  finally have L: "2 powi (k + e) \<le> q" by (simp add: q)
  have "of_int m * 2 powi e < of_int (2 ^ nat (k + 1)) * (2::rat) powi e"
    using hi by (intro mult_strict_right_mono) (simp_all only: of_int_less_iff zero_less_power_int zero_less_numeral)
  also have "\<dots> = 2 powi (k + e + 1)"
    using k0 by (simp add: power_int_add power_int_nonneg_exp nat_add_distrib)
  finally have U: "q < 2 powi (k + e + 1)" by (simp add: q)
  have il: "ilog2 q = k + e" using qpos L U by (rule ilog2_unique)
  define e' where "e' = ulp_exp q"
  have e'le: "e' \<le> e" using k52 e by (simp add: e'_def ulp_exp_def il)
  have "q / 2 powi e' = of_int m * (2 powi e / 2 powi e')" by (simp add: q)
  also have "2 powi e / 2 powi e' = (2::rat) powi (e - e')" by (simp add: power_int_diff)
  also have "\<dots> = of_int (2 ^ nat (e - e'))" using e'le by (simp add: power_int_nonneg_exp)
  finally have sc: "q / 2 powi e' = of_int (m * 2 ^ nat (e - e'))" by simp
  have "of_int (round_half_even (q / 2 powi e')) * 2 powi e' = (q / 2 powi e') * 2 powi e'"
    by (simp only: sc round_half_even_of_int)
  also have "\<dots> = q" by simp
  finally have r: "of_int (round_half_even (q / 2 powi e')) * 2 powi e' = q" .
  show ?thesis using qpos fin r by (simp add: rnd_def Let_def e'_def [symmetric])
qed


lemma rnd_zero [simp]: "rnd s 0 = Finite s 0"
  by (simp add: rnd_def)

lemma rnd_of_nat_exact:
  assumes "n \<le> 2 ^ 53"
  shows "rnd s (of_nat n) = Finite s (of_nat n)"
proof -
  consider "n = 0" | "0 < n" "n < 2 ^ 53" | "n = 2 ^ 53" using assms by fastforce
  then show ?thesis
  proof cases
    case 1
    then show ?thesis by simp
  next
    case 2
    have "(of_nat n :: rat) < 2 ^ 53" using 2(2) by (metis of_nat_less_iff of_nat_numeral of_nat_power)
    then have "(of_nat n :: rat) < 2 ^ 1024" by (rule less_trans) simp
    moreover have "int n < 2 ^ 53" using 2(2) by (metis of_nat_less_iff of_nat_numeral of_nat_power)
    ultimately show ?thesis
      using 2(1) by (intro rnd_representable [where m = "int n" and e = 0]) simp_all
  next
    case 3
    have "rnd s (2 ^ 53) = Finite s (2 ^ 53)"
      by (rule rnd_representable [where m = "2 ^ 52" and e = 1]) simp_all
    then show ?thesis by (simp add: 3)
  qed
qed

text \<open>Every finite result of \<open>rnd\<close> is a binary64 value: rounding it again changes nothing.\<close>

lemma rnd_idem:
  assumes "rnd s q = Finite s' r" and "0 \<le> q"
  shows "rnd t r = Finite t r"
proof (cases "q = 0")
  case True
  with assms show ?thesis by (simp add: rnd_def)
next
  case False
  define e where "e = ulp_exp q"
  define M where "M = round_half_even (q / 2 powi e)"
  have r: "r = of_int M * 2 powi e" and fin: "r < 2 ^ 1024"
    using assms False by (simp_all add: rnd_def Let_def e_def M_def split: if_splits)
  show ?thesis
  proof (cases "0 < q")
    case True
    have M0: "0 \<le> M" and M53: "M \<le> 2 ^ 53"
      using significand_bounds [OF True] by (simp_all add: M_def e_def)
    have e: "- 1074 \<le> e" by (simp add: e_def ulp_exp_ge)
    consider "M = 0" | "0 < M" "M < 2 ^ 53" | "M = 2 ^ 53" using M0 M53 by fastforce
    then show ?thesis
    proof cases
      case 1
      then show ?thesis by (simp add: r)
    next
      case 2
      then show ?thesis using e r fin by (intro rnd_representable [where m = M and e = e])
    next
      case 3
      have "r = of_int (2 ^ 52) * 2 powi (e + 1)" by (simp add: r 3 power_int_add)
      then show ?thesis using e fin
        by (intro rnd_representable [where m = "2 ^ 52" and e = "e + 1"]) simp_all
    qed
  next
    case False
    with \<open>q \<noteq> 0\<close> \<open>0 \<le> q\<close> show ?thesis by simp
  qed
qed


lemma rnd_one [simp]: "rnd s 1 = Finite s 1"
  using rnd_of_nat_exact [of 1 s] by simp

lemma ilog2_nonneg:
  assumes "1 \<le> q"
  shows "0 \<le> ilog2 q"
proof -
  have "0 < q" using assms by simp
  then have "q < 2 powi (ilog2 q + 1)" by (rule ilog2_bounds(2))
  with assms have "(2::rat) powi 0 < 2 powi (ilog2 q + 1)" by simp
  then have "0 < ilog2 q + 1"
    using power_int_increasing [of "ilog2 q + 1" 0 "2::rat"] by (cases "0 < ilog2 q + 1"; simp)
  then show ?thesis by simp
qed

lemma ilog2_less:
  assumes "0 < q" "q < 2 ^ K"
  shows "ilog2 q < int K"
proof -
  have "2 powi ilog2 q \<le> q" using assms(1) by (rule ilog2_bounds(1))
  with assms(2) have "(2::rat) powi ilog2 q < 2 powi (int K)" by simp
  then show ?thesis
    using power_int_increasing [of "int K" "ilog2 q" "2::rat"] by (cases "ilog2 q < int K"; simp)
qed

lemma rnd_ge_one:
  assumes "1 \<le> q" "rnd s q = Finite s' r"
  shows "1 \<le> r"
proof -
  have qpos: "0 < q" using assms(1) by simp
  define e where "e = ulp_exp q"
  define M where "M = round_half_even (q / 2 powi e)"
  have r: "r = of_int M * 2 powi e"
    using assms(2) qpos by (simp add: rnd_def Let_def e_def M_def split: if_splits)
  have n: "- 1074 \<le> ilog2 q - 52" using ilog2_nonneg [OF assms(1)] by simp
  have M: "2 ^ 52 \<le> M" using significand_normal [OF qpos n] by (simp add: M_def e_def)
  have e: "- 52 \<le> e" using ilog2_nonneg [OF assms(1)] by (simp add: e_def ulp_exp_def)
  have "(1::rat) = 2 ^ 52 * 2 powi (- 52)" by simp
  also have "\<dots> \<le> 2 ^ 52 * 2 powi e"
    using e by (intro mult_left_mono power_int_increasing) simp_all
  also have "\<dots> \<le> of_int M * 2 powi e"
  proof (rule mult_right_mono)
    have "(of_int (2 ^ 52) :: rat) \<le> of_int M" using M by (simp only: of_int_le_iff)
    then show "(2 ^ 52 :: rat) \<le> of_int M" by simp
  qed simp
  finally show ?thesis by (simp add: r)
qed

lemma rnd_bounded:
  assumes "0 \<le> q" "q < 2 ^ K" "K \<le> 1023"
  shows "\<exists>r. rnd s q = Finite s r \<and> 0 \<le> r \<and> r \<le> 2 ^ K"
proof (cases "q = 0")
  case True
  then show ?thesis by simp
next
  case False
  with assms(1) have qpos: "0 < q" by simp
  define e where "e = ulp_exp q"
  define M where "M = round_half_even (q / 2 powi e)"
  define r where "r = of_int M * (2::rat) powi e"
  have M0: "0 \<le> M" and M53: "M \<le> 2 ^ 53"
    using significand_bounds [OF qpos] by (simp_all add: M_def e_def)
  have e: "e \<le> int K - 53" using ilog2_less [OF qpos assms(2)] by (simp add: e_def ulp_exp_def)
  have r0: "0 \<le> r" using M0 by (simp add: r_def)
  have "r \<le> of_int (2 ^ 53) * 2 powi e"
    unfolding r_def using M53 by (intro mult_right_mono) (simp_all only: of_int_le_iff zero_le_power_int zero_le_numeral)
  also have "\<dots> = 2 powi (e + 53)" by (simp add: power_int_add)
  also have "\<dots> \<le> 2 powi (int K)" using e by (intro power_int_increasing) simp_all
  finally have rK: "r \<le> 2 ^ K" by simp
  have "(2::rat) ^ K < 2 ^ 1024" using assms(3) by (intro power_strict_increasing) simp_all
  with rK have "r < 2 ^ 1024" by simp
  then have "rnd s q = Finite s r"
    using False by (simp add: rnd_def Let_def e_def [symmetric] M_def [symmetric] r_def [symmetric])
  with r0 rK show ?thesis by blast
qed

lemma floor_rat_numeral_div:
  "\<lfloor>numeral a / numeral b :: rat\<rfloor> = numeral a div numeral b"
  using floor_divide_of_int_eq [of "numeral a" "numeral b", where ?'a = rat] by simp

lemma floor_rat_one_div: "\<lfloor>1 / numeral b :: rat\<rfloor> = 1 div numeral b"
  using floor_divide_of_int_eq [of 1 "numeral b", where ?'a = rat] by simp

text \<open>Evaluating \<open>rnd\<close> at a given magnitude from its binary exponent.\<close>

lemma rnd_eval:
  assumes "0 < q" "2 powi k \<le> q" "q < 2 powi (k + 1)" "e = max (k - 52) (- 1074)"
    and "of_int (round_half_even (q / 2 powi e)) * 2 powi e = r"
  shows "rnd s q = (if 2 ^ 1024 \<le> r then Infinity s else Finite s r)"
proof -
  have "ilog2 q = k" using assms(1-3) by (rule ilog2_unique)
  then have "ulp_exp q = e" using assms(4) by (simp add: ulp_exp_def)
  then show ?thesis using assms(1,5) by (simp add: rnd_def Let_def)
qed

text \<open>
  Checks of the rounding against known binary64 values: one third, ties going to the even
  significand, the largest finite value, the overflow threshold, a subnormal tie and the
  underflow to a signed zero.
\<close>

lemma rnd_third: "rnd False (1 / 3) = Finite False (6004799503160661 / 2 ^ 54)"
  by (subst rnd_eval [where k = "- 2" and e = "- 54" and r = "6004799503160661 / 2 ^ 54"])
     (simp_all add: round_half_even_def Let_def power_int_minus floor_rat_numeral_div)

lemma rnd_tie_to_even: "rnd False (2 ^ 53 + 1) = Finite False (2 ^ 53)"
  by (subst rnd_eval [where k = 53 and e = 1 and r = "2 ^ 53"])
     (simp_all add: round_half_even_def Let_def floor_rat_numeral_div)

lemma rnd_tie_odd: "rnd False (2 ^ 53 + 3) = Finite False (2 ^ 53 + 4)"
  by (subst rnd_eval [where k = 53 and e = 1 and r = "2 ^ 53 + 4"])
     (simp_all add: round_half_even_def Let_def floor_rat_numeral_div)

lemma rnd_largest: "rnd False (2 ^ 1024 - 2 ^ 971) = Finite False (2 ^ 1024 - 2 ^ 971)"
  by (subst rnd_eval [where k = 1023 and e = 971 and r = "2 ^ 1024 - 2 ^ 971"])
     (simp_all add: round_half_even_def Let_def floor_rat_numeral_div)

lemma rnd_overflow: "rnd False (2 ^ 1024 - 2 ^ 970) = Infinity False"
  by (subst rnd_eval [where k = 1023 and e = 971 and r = "2 ^ 1024"])
     (simp_all add: round_half_even_def Let_def floor_rat_numeral_div)

lemma rnd_subnormal: "rnd False (3 / 2 ^ 1075) = Finite False (1 / 2 ^ 1073)"
  by (subst rnd_eval [where k = "- 1074" and e = "- 1074" and r = "1 / 2 ^ 1073"])
     (simp_all add: round_half_even_def Let_def power_int_minus floor_rat_numeral_div)

lemma rnd_underflow: "rnd True (1 / 2 ^ 1075) = Finite True 0"
  by (subst rnd_eval [where k = "- 1075" and e = "- 1074" and r = 0])
     (simp_all add: round_half_even_def Let_def power_int_minus floor_rat_one_div)

lemma rnd_numeral_exact:
  "(numeral n :: nat) \<le> 2 ^ 53 \<Longrightarrow> rnd s (numeral n) = Finite s (numeral n)"
  using rnd_of_nat_exact [of "numeral n" s] by simp

lemma int_to_double_minus_one [simp]: "int_to_double (- 1) = Finite True 1"
  by (simp add: int_to_double_def)

lemma u64_to_double_shape:
  "\<exists>r. u64_to_double w = Finite False r \<and> 0 \<le> r \<and> r \<le> 2 ^ 64 \<and>
       rnd False r = Finite False r \<and> (w \<noteq> 0 \<longrightarrow> 1 \<le> r)"
proof -
  define q :: rat where "q = of_nat (unat w)"
  have q0: "0 \<le> q" by (simp add: q_def del: of_nat_unat)
  have "unat w < 2 ^ LENGTH(64)" by (rule unsigned_less)
  then have "unat w < 2 ^ 64" by simp
  then have "q < of_nat (2 ^ 64)" unfolding q_def by (simp only: of_nat_less_iff)
  then have q64: "q < 2 ^ 64" by simp
  from rnd_bounded [OF q0 q64, of False]
  obtain r where r: "rnd False q = Finite False r" "0 \<le> r" "r \<le> 2 ^ 64" by auto
  have idem: "rnd False r = Finite False r" using r(1) q0 by (rule rnd_idem)
  have "1 \<le> r" if "w \<noteq> 0"
  proof -
    from that have "unat w \<noteq> 0" by (simp add: unat_eq_0)
    then have "1 \<le> unat w" by simp
    then have "1 \<le> q" unfolding q_def by (metis of_nat_1 of_nat_le_iff)
    then show ?thesis using r(1) by (rule rnd_ge_one)
  qed
  with r idem show ?thesis by (simp add: u64_to_double_def q_def del: of_nat_unat)
qed

lemma u64_to_double_small:
  "unat w \<le> 2 ^ 53 \<Longrightarrow> u64_to_double w = Finite False (of_nat (unat w))"
  unfolding u64_to_double_def by (rule rnd_of_nat_exact)

text \<open>With a running-time difference other than zero the result is a finite, non-negative double.\<close>

lemma readCounter_finite:
  assumes "time_running (data ev) - time_running (prev ev) \<noteq> 0"
  shows "\<exists>v. readCounter ev = Finite False v \<and> 0 \<le> v"
proof -
  obtain a where a: "u64_to_double (time_enabled (data ev) - time_enabled (prev ev)) = Finite False a"
    "0 \<le> a" "a \<le> 2 ^ 64"
    using u64_to_double_shape [of "time_enabled (data ev) - time_enabled (prev ev)"] by auto
  obtain b where b: "u64_to_double (time_running (data ev) - time_running (prev ev)) = Finite False b"
    "1 \<le> b"
    using u64_to_double_shape [of "time_running (data ev) - time_running (prev ev)"] assms by auto
  obtain x where x: "u64_to_double (rf_value (data ev) - rf_value (prev ev)) = Finite False x"
    "0 \<le> x" "x \<le> 2 ^ 64"
    using u64_to_double_shape [of "rf_value (data ev) - rf_value (prev ev)"] by auto
  have "a / b \<le> a" using a(2) b(2) by (simp add: divide_le_eq mult_left_mono [of 1 b a, simplified])
  with a(3) have "a / b < 2 ^ 65" by simp
  moreover have "0 \<le> a / b" using a(2) b(2) by simp
  ultimately obtain c where c: "rnd False (a / b) = Finite False c" "0 \<le> c" "c \<le> 2 ^ 65"
    using rnd_bounded [of "a / b" 65 False] by auto
  have "x * c \<le> 2 ^ 64 * 2 ^ 65" using x(2,3) c(2,3) by (intro mult_mono) simp_all
  then have "x * c < 2 ^ 130" by simp
  moreover have "0 \<le> x * c" using x(2) c(2) by simp
  ultimately obtain v where v: "rnd False (x * c) = Finite False v" "0 \<le> v"
    using rnd_bounded [of "x * c" 130 False] by auto
  have "readCounter ev = Finite False v"
    using b(2) by (simp add: readCounter_def a(1) b(1) x(1) c(1) v(1))
  with v(2) show ?thesis by blast
qed

text \<open>Without multiplexing the correction factor is exactly one.\<close>

lemma readCounter_no_multiplexing:
  assumes "time_running (data ev) - time_running (prev ev) \<noteq> 0"
    and "time_enabled (data ev) - time_enabled (prev ev) = time_running (data ev) - time_running (prev ev)"
  shows "readCounter ev = u64_to_double (rf_value (data ev) - rf_value (prev ev))"
proof -
  obtain b where b: "u64_to_double (time_running (data ev) - time_running (prev ev)) = Finite False b"
    "1 \<le> b"
    using u64_to_double_shape [of "time_running (data ev) - time_running (prev ev)"] assms(1) by auto
  obtain x where x: "u64_to_double (rf_value (data ev) - rf_value (prev ev)) = Finite False x"
    "rnd False x = Finite False x"
    using u64_to_double_shape [of "rf_value (data ev) - rf_value (prev ev)"] by auto
  show ?thesis using b(2) by (simp add: readCounter_def assms(2) b(1) x)
qed

lemma big_delta_value: "readCounter big_delta_event = Finite False 9007199254740992"
proof -
  have "rnd False 9007199254740993 = Finite False 9007199254740992"
    using rnd_tie_to_even by simp
  then show ?thesis
    by (simp add: readCounter_def big_delta_event_def zero_read_format_def u64_to_double_def
        rnd_numeral_exact)
qed

section \<open>The multiplexing correction\<close>

text \<open>
  Claim C1, as the code has it. Whenever the running-time difference is not zero (for an
  unsigned difference, greater than zero), \<open>readCounter\<close> returns the raw difference times the quotient of the enabled-time and
  running-time differences, each difference taken in 64-bit unsigned arithmetic and the
  product and quotient in binary64; the result is a finite, non-negative double. When the
  enabled-time difference equals the running-time difference the result is the raw difference
  converted to \<^verbatim>\<open>double\<close>, which is the raw difference itself as long as that is at most
  \<open>2 ^ 53\<close>.
\<close>

theorem readCounter_correction:
  assumes "time_running (data ev) - time_running (prev ev) \<noteq> 0"
  shows "readCounter ev =
           dmul (u64_to_double (rf_value (data ev) - rf_value (prev ev)))
             (ddiv (u64_to_double (time_enabled (data ev) - time_enabled (prev ev)))
                   (u64_to_double (time_running (data ev) - time_running (prev ev))))
         \<and> (\<exists>v. readCounter ev = Finite False v \<and> 0 \<le> v)
         \<and> (time_enabled (data ev) - time_enabled (prev ev)
              = time_running (data ev) - time_running (prev ev) \<longrightarrow>
            readCounter ev = u64_to_double (rf_value (data ev) - rf_value (prev ev))
            \<and> (unat (rf_value (data ev) - rf_value (prev ev)) \<le> 2 ^ 53 \<longrightarrow>
               readCounter ev = Finite False (of_nat (unat (rf_value (data ev) - rf_value (prev ev))))))"
proof (intro conjI impI)
  show "readCounter ev =
           dmul (u64_to_double (rf_value (data ev) - rf_value (prev ev)))
             (ddiv (u64_to_double (time_enabled (data ev) - time_enabled (prev ev)))
                   (u64_to_double (time_running (data ev) - time_running (prev ev))))"
    by (simp add: readCounter_def)
  show "\<exists>v. readCounter ev = Finite False v \<and> 0 \<le> v" using assms by (rule readCounter_finite)
next
  assume eq: "time_enabled (data ev) - time_enabled (prev ev)
              = time_running (data ev) - time_running (prev ev)"
  show nm: "readCounter ev = u64_to_double (rf_value (data ev) - rf_value (prev ev))"
    using assms eq by (rule readCounter_no_multiplexing)
  assume "unat (rf_value (data ev) - rf_value (prev ev)) \<le> 2 ^ 53"
  then show "readCounter ev = Finite False (of_nat (unat (rf_value (data ev) - rf_value (prev ev))))"
    unfolding nm by (rule u64_to_double_small)
qed

theorem readCounter_correction_witness:
  "time_running (data plain_event) - time_running (prev plain_event) \<noteq> 0
   \<and> time_enabled (data plain_event) - time_enabled (prev plain_event)
       = time_running (data plain_event) - time_running (prev plain_event)
   \<and> unat (rf_value (data plain_event) - rf_value (prev plain_event)) \<le> 2 ^ 53
   \<and> readCounter plain_event = Finite False 1000"
proof -
  let ?raw = "rf_value (data plain_event) - rf_value (prev plain_event)"
  have a: "time_running (data plain_event) - time_running (prev plain_event) \<noteq> 0"
    by (simp add: plain_event_def)
  have b: "time_enabled (data plain_event) - time_enabled (prev plain_event)
       = time_running (data plain_event) - time_running (prev plain_event)"
    by (simp add: plain_event_def)
  have c: "unat ?raw \<le> 2 ^ 53" by (simp add: plain_event_def)
  have d: "(of_nat (unat ?raw) :: rat) = 1000" by (simp add: plain_event_def)
  from readCounter_correction [OF a] b c
  have "readCounter plain_event = Finite False (of_nat (unat ?raw))" by blast
  then have "readCounter plain_event = Finite False 1000" by (simp only: d)
  with a b c show ?thesis by blast
qed

text \<open>
  Claim C1 as stated fails for large counts: a raw difference of \<open>2 ^ 53 + 1\<close> without
  multiplexing is returned as \<open>2 ^ 53\<close>, the nearest double.
\<close>

theorem readCounter_not_exact:
  "time_running (data big_delta_event) - time_running (prev big_delta_event) \<noteq> 0
   \<and> time_enabled (data big_delta_event) - time_enabled (prev big_delta_event)
       = time_running (data big_delta_event) - time_running (prev big_delta_event)
   \<and> readCounter big_delta_event
       \<noteq> Finite False (of_nat (unat (rf_value (data big_delta_event) - rf_value (prev big_delta_event))))"
  by (simp add: big_delta_value) (simp add: big_delta_event_def zero_read_format_def)

section \<open>The opening loop\<close>

lemma open_loop_done: "length (events r) \<le> i \<Longrightarrow> open_loop K i r h = (r, h)"
  by (simp add: open_loop.simps)

lemma open_loop_fail:
  assumes "i < length (events r)" "perf_event_open K h (pe (events r ! i)) < 0"
  shows "open_loop K i r h =
    (r\<lparr>events := [], names := []\<rparr>,
     h @ [PerfEventOpen (pe (events r ! i)) (perf_event_open K h (pe (events r ! i))),
          Cerr (''Error opening counter '' @ names r ! i)])"
  using assms by (subst open_loop.simps) (simp add: Let_def)

lemma open_loop_step:
  assumes "i < length (events r)" "\<not> perf_event_open K h (pe (events r ! i)) < 0"
  shows "open_loop K i r h =
    open_loop K (i + 1)
      (r\<lparr>events := (events r)[i := (events r ! i)\<lparr>fd := perf_event_open K h (pe (events r ! i))\<rparr>]\<rparr>)
      (h @ [PerfEventOpen (pe (events r ! i)) (perf_event_open K h (pe (events r ! i)))])"
  using assms by (subst open_loop.simps) (simp add: Let_def)

lemma open_loop_char:
  assumes "same_length r" "i \<le> length (events r)"
  shows "\<exists>rets. length rets \<le> length (events r) - i \<and> list_all (\<lambda>x. 0 \<le> x) (butlast rets) \<and>
           snd (open_loop K i r h) = h @ open_calls (drop i (zip (events r) (names r))) rets \<and>
           (if list_all (\<lambda>x. 0 \<le> x) rets
            then length rets = length (events r) - i \<and>
                 fst (open_loop K i r h) = r\<lparr>events := take i (events r) @ set_fds (drop i (events r)) rets\<rparr>
            else fst (open_loop K i r h) = r\<lparr>events := [], names := []\<rparr>)"
  using assms
proof (induction K i r h rule: open_loop.induct)
  case (1 K i r h)
  show ?case
  proof (cases "i < length (events r)")
    case False
    with 1(3) have "i = length (events r)" by simp
    then show ?thesis
      by (intro exI [of _ "[]"]) (simp add: open_loop_done set_fds_def)
  next
    case True
    define ev where "ev = events r ! i"
    define ret where "ret = perf_event_open K h (pe ev)"
    have dz: "drop i (zip (events r) (names r)) = (ev, names r ! i) # drop (Suc i) (zip (events r) (names r))"
      using True 1(2) by (simp add: ev_def same_length_def flip: Cons_nth_drop_Suc)
    show ?thesis
    proof (cases "ret < 0")
      case neg: True
      show ?thesis
        using True neg dz
        by (intro exI [of _ "[ret]"]) (simp add: open_loop_fail ret_def ev_def [symmetric])
    next
      case nonneg: False
      define r1 where "r1 = r\<lparr>events := (events r)[i := ev\<lparr>fd := ret\<rparr>]\<rparr>"
      define h1 where "h1 = h @ [PerfEventOpen (pe ev) ret]"
      have step: "open_loop K i r h = open_loop K (i + 1) r1 h1"
        using True nonneg by (simp add: open_loop_step ret_def ev_def r1_def h1_def)
      have sl: "same_length r1" using 1(2) by (simp add: same_length_def r1_def)
      have le: "i + 1 \<le> length (events r1)" using True by (simp add: r1_def)
      from "1.IH" [OF True ev_def ret_def h1_def r1_def nonneg sl le]
      obtain rets where
        len: "length rets \<le> length (events r1) - (i + 1)" and
        bl: "list_all (\<lambda>x. 0 \<le> x) (butlast rets)" and
        tr: "snd (open_loop K (i + 1) r1 h1) = h1 @ open_calls (drop (i + 1) (zip (events r1) (names r1))) rets" and
        res: "if list_all (\<lambda>x. 0 \<le> x) rets
            then length rets = length (events r1) - (i + 1) \<and>
                 fst (open_loop K (i + 1) r1 h1) = r1\<lparr>events := take (i + 1) (events r1) @ set_fds (drop (i + 1) (events r1)) rets\<rparr>
            else fst (open_loop K (i + 1) r1 h1) = r1\<lparr>events := [], names := []\<rparr>"
        by blast
      have d1: "drop (i + 1) (zip (events r1) (names r1)) = drop (Suc i) (zip (events r) (names r))"
        by (simp add: r1_def drop_zip)
      have t1: "take (i + 1) (events r1) = take i (events r) @ [ev\<lparr>fd := ret\<rparr>]"
        using True by (simp add: r1_def take_Suc_conv_app_nth)
      have de: "drop i (events r) = ev # drop (Suc i) (events r)"
        using True by (simp add: ev_def flip: Cons_nth_drop_Suc)
      show ?thesis
      proof (intro exI [of _ "ret # rets"] conjI)
        show "length (ret # rets) \<le> length (events r) - i" using len True by (simp add: r1_def)
        show "list_all (\<lambda>x. 0 \<le> x) (butlast (ret # rets))" using bl nonneg by simp
        show "snd (open_loop K i r h) = h @ open_calls (drop i (zip (events r) (names r))) (ret # rets)"
          using tr [unfolded d1] nonneg by (simp add: step dz h1_def)
        show "if list_all (\<lambda>x. 0 \<le> x) (ret # rets)
            then length (ret # rets) = length (events r) - i \<and>
                 fst (open_loop K i r h) = r\<lparr>events := take i (events r) @ set_fds (drop i (events r)) (ret # rets)\<rparr>
            else fst (open_loop K i r h) = r\<lparr>events := [], names := []\<rparr>"
          using res [unfolded t1] nonneg True by (auto simp: step de set_fds_def r1_def)
      qed
    qed
  qed
qed

section \<open>Lookup by name\<close>

lemma getCounter_loop_miss:
  "(\<forall>j. i \<le> j \<and> j < length (events r) \<longrightarrow> names r ! j \<noteq> name) \<Longrightarrow>
   getCounter_loop r name i = Finite True 1"
proof (induction r name i rule: getCounter_loop.induct)
  case (1 r name i)
  show ?case
  proof (cases "i < length (events r)")
    case True
    then have ne: "names r ! i \<noteq> name" using 1(2) by simp
    have "getCounter_loop r name (i + 1) = Finite True 1"
      using True ne 1(2) by (intro "1.IH") simp_all
    then show ?thesis using True ne by (subst getCounter_loop.simps) simp
  next
    case False
    then show ?thesis by (subst getCounter_loop.simps) simp
  qed
qed

lemma getCounter_loop_hit:
  "i \<le> k \<Longrightarrow> k < length (events r) \<Longrightarrow> names r ! k = name \<Longrightarrow>
   (\<forall>j. i \<le> j \<and> j < k \<longrightarrow> names r ! j \<noteq> name) \<Longrightarrow>
   getCounter_loop r name i = readCounter (events r ! k)"
proof (induction r name i rule: getCounter_loop.induct)
  case (1 r name i)
  have lt: "i < length (events r)" using 1(2,3) by simp
  show ?case
  proof (cases "i = k")
    case True
    then show ?thesis using lt 1(4) by (subst getCounter_loop.simps) simp
  next
    case False
    then have ik: "i < k" using 1(2) by simp
    then have ne: "names r ! i \<noteq> name" using 1(5) by simp
    have "getCounter_loop r name (i + 1) = readCounter (events r ! k)"
      using lt ne ik 1(3,4,5) by (intro "1.IH") simp_all
    then show ?thesis using lt ne by (subst getCounter_loop.simps) simp
  qed
qed

lemma getCounter_miss:
  assumes "same_length r" "name \<notin> set (names r)"
  shows "getCounter r name = Finite True 1"
  unfolding getCounter_def
proof (rule getCounter_loop_miss, intro allI impI)
  fix j assume "0 \<le> j \<and> j < length (events r)"
  then have "names r ! j \<in> set (names r)" using assms(1) by (simp add: same_length_def)
  with assms(2) show "names r ! j \<noteq> name" by auto
qed

lemma getCounter_hit:
  assumes "same_length r" "k < length (names r)" "names r ! k = name"
    "\<forall>j<k. names r ! j \<noteq> name"
  shows "getCounter r name = readCounter (events r ! k)"
  unfolding getCounter_def
  using assms by (intro getCounter_loop_hit) (simp_all add: same_length_def)

lemma readCounter_plain_count:
  assumes "plain_count ev n" "unat n \<le> 2 ^ 53"
  shows "readCounter ev = Finite False (of_nat (unat n))"
proof -
  have "readCounter ev = u64_to_double n"
    using assms(1) readCounter_no_multiplexing [of ev] by (simp add: plain_count_def)
  then show ?thesis using assms(2) by (simp only: u64_to_double_small)
qed

lemma plain_count_counted_event: "n = m \<Longrightarrow> plain_count (counted_event n) m"
  by (simp add: plain_count_def counted_event_def zero_read_format_def)


section \<open>The start and stop loops\<close>

lemma start_loop_done: "length (events r) \<le> i \<Longrightarrow> start_loop K i r h = (r, h)"
  by (simp add: start_loop.simps)

lemma start_loop_step:
  assumes "i < length (events r)" "read_counter K (h @ [IoctlReset (fd (events r ! i)), IoctlEnable (fd (events r ! i))]) (fd (events r ! i)) = (ret, stored)"
  shows "start_loop K i r h =
    start_loop K (i + 1)
      (r\<lparr>events := (events r)[i := (events r ! i)\<lparr>prev := store_fields stored (prev (events r ! i))\<rparr>]\<rparr>)
      (h @ start_calls [(events r ! i, names r ! i)] [(ret, stored)])"
  using assms by (subst start_loop.simps) (simp add: Let_def)

lemma start_calls_Cons:
  "start_calls (x # xs) (a # as) = start_calls [x] [a] @ start_calls xs as"
  by (cases x; cases a) simp

lemma start_loop_char:
  assumes "same_length r" "i \<le> length (events r)"
  shows "\<exists>rs. length rs = length (events r) - i \<and>
           start_loop K i r h =
             (r\<lparr>events := take i (events r) @ set_prevs (drop i (events r)) rs\<rparr>,
              h @ start_calls (drop i (zip (events r) (names r))) rs)"
  using assms
proof (induction K i r h rule: start_loop.induct)
  case (1 K i r h)
  show ?case
  proof (cases "i < length (events r)")
    case False
    with 1(3) have "i = length (events r)" by simp
    then show ?thesis
      by (intro exI [of _ "[]"]) (simp add: start_loop_done set_prevs_def)
  next
    case True
    define ev where "ev = events r ! i"
    define h1 where "h1 = h @ [IoctlReset (fd ev)]"
    define h2 where "h2 = h1 @ [IoctlEnable (fd ev)]"
    obtain ret stored where rd: "read_counter K h2 (fd ev) = (ret, stored)" by (cases "read_counter K h2 (fd ev)")
    define h3 where "h3 = h2 @ [Read (fd ev) ret stored]"
    define r1 where "r1 = r\<lparr>events := (events r)[i := ev\<lparr>prev := store_fields stored (prev ev)\<rparr>]\<rparr>"
    define h4 where "h4 = (if ret \<noteq> 24 then h3 @ [Cerr (''Error reading counter '' @ names r ! i)] else h3)"
    have h4: "h4 = h @ start_calls [(ev, names r ! i)] [(ret, stored)]"
      by (simp add: h4_def h3_def h2_def h1_def)
    have step: "start_loop K i r h = start_loop K (i + 1) r1 h4"
      unfolding h4 r1_def ev_def
      using True rd by (intro start_loop_step) (simp_all add: h2_def h1_def ev_def)
    have dz: "drop i (zip (events r) (names r)) = (ev, names r ! i) # drop (Suc i) (zip (events r) (names r))"
      using True 1(2) by (simp add: ev_def same_length_def flip: Cons_nth_drop_Suc)
    have sl: "same_length r1" using 1(2) by (simp add: same_length_def r1_def)
    have le: "i + 1 \<le> length (events r1)" using True by (simp add: r1_def)
    from "1.IH" [OF True ev_def h1_def h2_def rd [symmetric] refl h3_def r1_def h4_def sl le]
    obtain rs where
      len: "length rs = length (events r1) - (i + 1)" and
      eq: "start_loop K (i + 1) r1 h4 =
             (r1\<lparr>events := take (i + 1) (events r1) @ set_prevs (drop (i + 1) (events r1)) rs\<rparr>,
              h4 @ start_calls (drop (i + 1) (zip (events r1) (names r1))) rs)"
      by blast
    have d1: "drop (i + 1) (zip (events r1) (names r1)) = drop (Suc i) (zip (events r) (names r))"
      by (simp add: r1_def drop_zip)
    have t1: "take (i + 1) (events r1) = take i (events r) @ [ev\<lparr>prev := store_fields stored (prev ev)\<rparr>]"
      using True by (simp add: r1_def take_Suc_conv_app_nth)
    have d2: "drop (i + 1) (events r1) = drop (Suc i) (events r)" by (simp add: r1_def)
    have de: "drop i (events r) = ev # drop (Suc i) (events r)"
      using True by (simp add: ev_def flip: Cons_nth_drop_Suc)
    show ?thesis
    proof (intro exI [of _ "(ret, stored) # rs"] conjI)
      show "length ((ret, stored) # rs) = length (events r) - i" using len True by (simp add: r1_def)
      show "start_loop K i r h =
             (r\<lparr>events := take i (events r) @ set_prevs (drop i (events r)) ((ret, stored) # rs)\<rparr>,
              h @ start_calls (drop i (zip (events r) (names r))) ((ret, stored) # rs))"
      proof -
        have "start_loop K i r h =
             (r1\<lparr>events := (take i (events r) @ [ev\<lparr>prev := store_fields stored (prev ev)\<rparr>])
                              @ set_prevs (drop (Suc i) (events r)) rs\<rparr>,
              h4 @ start_calls (drop (Suc i) (zip (events r) (names r))) rs)"
          unfolding step eq d1 t1 d2 ..
        then show ?thesis by (simp add: h4 dz de set_prevs_def r1_def)
      qed
    qed
  qed
qed


lemma stop_loop_done: "length (events r) \<le> i \<Longrightarrow> stop_loop K i r h = (r, h)"
  by (simp add: stop_loop.simps)

lemma stop_loop_step:
  assumes "i < length (events r)" "read_counter K h (fd (events r ! i)) = (ret, stored)"
  shows "stop_loop K i r h =
    stop_loop K (i + 1)
      (r\<lparr>events := (events r)[i := (events r ! i)\<lparr>data := store_fields stored (data (events r ! i))\<rparr>]\<rparr>)
      (h @ stop_calls [(events r ! i, names r ! i)] [(ret, stored)])"
  using assms by (subst stop_loop.simps) (simp add: Let_def)

lemma stop_loop_char:
  assumes "same_length r" "i \<le> length (events r)"
  shows "\<exists>rs. length rs = length (events r) - i \<and>
           stop_loop K i r h =
             (r\<lparr>events := take i (events r) @ set_datas (drop i (events r)) rs\<rparr>,
              h @ stop_calls (drop i (zip (events r) (names r))) rs)"
  using assms
proof (induction K i r h rule: stop_loop.induct)
  case (1 K i r h)
  show ?case
  proof (cases "i < length (events r)")
    case False
    with 1(3) have "i = length (events r)" by simp
    then show ?thesis
      by (intro exI [of _ "[]"]) (simp add: stop_loop_done set_datas_def)
  next
    case True
    define ev where "ev = events r ! i"
    obtain ret stored where rd: "read_counter K h (fd ev) = (ret, stored)" by (cases "read_counter K h (fd ev)")
    define h1 where "h1 = h @ [Read (fd ev) ret stored]"
    define r1 where "r1 = r\<lparr>events := (events r)[i := ev\<lparr>data := store_fields stored (data ev)\<rparr>]\<rparr>"
    define h2 where "h2 = (if ret \<noteq> 24 then h1 @ [Cerr (''Error reading counter '' @ names r ! i)] else h1)"
    define h3 where "h3 = h2 @ [IoctlDisable (fd ev)]"
    have h3: "h3 = h @ stop_calls [(ev, names r ! i)] [(ret, stored)]"
      by (simp add: h3_def h2_def h1_def)
    have step: "stop_loop K i r h = stop_loop K (i + 1) r1 h3"
      unfolding h3 r1_def ev_def
      using True rd by (intro stop_loop_step) (simp_all add: ev_def)
    have dz: "drop i (zip (events r) (names r)) = (ev, names r ! i) # drop (Suc i) (zip (events r) (names r))"
      using True 1(2) by (simp add: ev_def same_length_def flip: Cons_nth_drop_Suc)
    have sl: "same_length r1" using 1(2) by (simp add: same_length_def r1_def)
    have le: "i + 1 \<le> length (events r1)" using True by (simp add: r1_def)
    from "1.IH" [OF True ev_def rd [symmetric] refl h1_def r1_def h2_def h3_def sl le]
    obtain rs where
      len: "length rs = length (events r1) - (i + 1)" and
      eq: "stop_loop K (i + 1) r1 h3 =
             (r1\<lparr>events := take (i + 1) (events r1) @ set_datas (drop (i + 1) (events r1)) rs\<rparr>,
              h3 @ stop_calls (drop (i + 1) (zip (events r1) (names r1))) rs)"
      by blast
    have d1: "drop (i + 1) (zip (events r1) (names r1)) = drop (Suc i) (zip (events r) (names r))"
      by (simp add: r1_def drop_zip)
    have t1: "take (i + 1) (events r1) = take i (events r) @ [ev\<lparr>data := store_fields stored (data ev)\<rparr>]"
      using True by (simp add: r1_def take_Suc_conv_app_nth)
    have d2: "drop (i + 1) (events r1) = drop (Suc i) (events r)" by (simp add: r1_def)
    have de: "drop i (events r) = ev # drop (Suc i) (events r)"
      using True by (simp add: ev_def flip: Cons_nth_drop_Suc)
    show ?thesis
    proof (intro exI [of _ "(ret, stored) # rs"] conjI)
      show "length ((ret, stored) # rs) = length (events r) - i" using len True by (simp add: r1_def)
      show "stop_loop K i r h =
             (r\<lparr>events := take i (events r) @ set_datas (drop i (events r)) ((ret, stored) # rs)\<rparr>,
              h @ stop_calls (drop i (zip (events r) (names r))) ((ret, stored) # rs))"
      proof -
        have "stop_loop K i r h =
             (r1\<lparr>events := (take i (events r) @ [ev\<lparr>data := store_fields stored (data ev)\<rparr>])
                              @ set_datas (drop (Suc i) (events r)) rs\<rparr>,
              h3 @ stop_calls (drop (Suc i) (zip (events r) (names r))) rs)"
          unfolding step eq d1 t1 d2 ..
        then show ?thesis by (simp add: h3 dz de set_datas_def r1_def)
      qed
    qed
  qed
qed

lemma startCounters_char:
  assumes "same_length r"
  shows "\<exists>rs t. length rs = length (events r) \<and>
           t = steady_clock_now K (h @ start_calls (zip (events r) (names r)) rs) \<and>
           startCounters K (r, h) =
             (r\<lparr>events := set_prevs (events r) rs, startTime := t\<rparr>,
              h @ start_calls (zip (events r) (names r)) rs @ [SteadyClockNow t])"
proof -
  from start_loop_char [OF assms, of 0 K h]
  obtain rs where "length rs = length (events r)" and
    "start_loop K 0 r h = (r\<lparr>events := set_prevs (events r) rs\<rparr>,
                           h @ start_calls (zip (events r) (names r)) rs)"
    by auto
  then show ?thesis
    by (intro exI [of _ rs] exI [of _ "steady_clock_now K (h @ start_calls (zip (events r) (names r)) rs)"])
       (simp add: startCounters_def Let_def)
qed

lemma stopCounters_char:
  assumes "same_length r"
  shows "\<exists>rs t. length rs = length (events r) \<and> t = steady_clock_now K h \<and>
           stopCounters K (r, h) =
             (r\<lparr>events := set_datas (events r) rs, stopTime := t\<rparr>,
              h @ [SteadyClockNow t] @ stop_calls (zip (events r) (names r)) rs)"
proof -
  define t where "t = steady_clock_now K h"
  have "same_length (r\<lparr>stopTime := t\<rparr>)" using assms by (simp add: same_length_def)
  from stop_loop_char [OF this, of 0 K "h @ [SteadyClockNow t]"]
  obtain rs where "length rs = length (events r)" and
    "stop_loop K 0 (r\<lparr>stopTime := t\<rparr>) (h @ [SteadyClockNow t]) =
       (r\<lparr>stopTime := t, events := set_datas (events r) rs\<rparr>,
        (h @ [SteadyClockNow t]) @ stop_calls (zip (events r) (names r)) rs)"
    by auto
  then show ?thesis
    by (intro exI [of _ rs] exI [of _ t]) (simp add: stopCounters_def t_def Let_def)
qed

lemma map_fd_set_prevs:
  "length rs = length evs \<Longrightarrow> map fd (set_prevs evs rs) = map fd evs"
  unfolding set_prevs_def
  by (induction evs rs rule: list_induct2') auto

lemma stop_calls_fd:
  "map fd evs = map fd evs' \<Longrightarrow>
   stop_calls (zip evs ns) rs = stop_calls (zip evs' ns) rs"
proof (induction evs arbitrary: evs' ns rs)
  case Nil
  then show ?case by simp
next
  case (Cons ev evs)
  then obtain ev' evs'' where e: "evs' = ev' # evs''" by (cases evs') auto
  with Cons.prems have fd: "fd ev = fd ev'" and rest: "map fd evs = map fd evs''" by simp_all
  show ?case
  proof (cases ns)
    case Nil
    then show ?thesis by (simp add: e)
  next
    case ns: (Cons n ns')
    show ?thesis
    proof (cases rs)
      case Nil
      then show ?thesis by (simp add: e ns)
    next
      case (Cons a rs')
      then show ?thesis using Cons.IH [OF rest, of ns' rs'] fd by (cases a) (simp add: e ns)
    qed
  qed
qed

section \<open>The recorded results are the kernel's\<close>

lemma answered_append:
  "answered K h (a @ b) \<longleftrightarrow> answered K h a \<and> answered K (h @ a) b"
proof (induction a arbitrary: h)
  case Nil
  show ?case by simp
next
  case (Cons c a)
  show ?case by (cases c) (simp_all add: Cons.IH)
qed

lemma start_loop_answered:
  "\<exists>ext. snd (start_loop K i r h) = h @ ext \<and> answered K h ext"
proof (induction K i r h rule: start_loop.induct)
  case (1 K i r h)
  show ?case
  proof (cases "i < length (events r)")
    case False
    then show ?thesis by (intro exI [of _ "[]"]) (simp add: start_loop_done)
  next
    case True
    define ev where "ev = events r ! i"
    define h1 where "h1 = h @ [IoctlReset (fd ev)]"
    define h2 where "h2 = h1 @ [IoctlEnable (fd ev)]"
    obtain ret stored where rd: "read_counter K h2 (fd ev) = (ret, stored)" by (cases "read_counter K h2 (fd ev)")
    define h3 where "h3 = h2 @ [Read (fd ev) ret stored]"
    define r1 where "r1 = r\<lparr>events := (events r)[i := ev\<lparr>prev := store_fields stored (prev ev)\<rparr>]\<rparr>"
    define h4 where "h4 = (if ret \<noteq> 24 then h3 @ [Cerr (''Error reading counter '' @ names r ! i)] else h3)"
    define sc where "sc = start_calls [(ev, names r ! i)] [(ret, stored)]"
    have h4: "h4 = h @ sc"
      by (simp add: h4_def h3_def h2_def h1_def sc_def)
    have step: "start_loop K i r h = start_loop K (i + 1) r1 h4"
      unfolding h4 sc_def r1_def ev_def
      using True rd by (intro start_loop_step) (simp_all add: h2_def h1_def ev_def)
    have a1: "answered K h sc"
      using rd by (simp add: sc_def h2_def h1_def)
    from "1.IH" [OF True ev_def h1_def h2_def rd [symmetric] refl h3_def r1_def h4_def]
    obtain ext where e: "snd (start_loop K (i + 1) r1 h4) = h4 @ ext" "answered K h4 ext" by blast
    show ?thesis
      using e a1 by (intro exI [of _ "sc @ ext"]) (simp add: step h4 answered_append)
  qed
qed

lemma stop_loop_answered:
  "\<exists>ext. snd (stop_loop K i r h) = h @ ext \<and> answered K h ext"
proof (induction K i r h rule: stop_loop.induct)
  case (1 K i r h)
  show ?case
  proof (cases "i < length (events r)")
    case False
    then show ?thesis by (intro exI [of _ "[]"]) (simp add: stop_loop_done)
  next
    case True
    define ev where "ev = events r ! i"
    obtain ret stored where rd: "read_counter K h (fd ev) = (ret, stored)" by (cases "read_counter K h (fd ev)")
    define h1 where "h1 = h @ [Read (fd ev) ret stored]"
    define r1 where "r1 = r\<lparr>events := (events r)[i := ev\<lparr>data := store_fields stored (data ev)\<rparr>]\<rparr>"
    define h2 where "h2 = (if ret \<noteq> 24 then h1 @ [Cerr (''Error reading counter '' @ names r ! i)] else h1)"
    define h3 where "h3 = h2 @ [IoctlDisable (fd ev)]"
    define sc where "sc = stop_calls [(ev, names r ! i)] [(ret, stored)]"
    have h3: "h3 = h @ sc"
      by (simp add: h3_def h2_def h1_def sc_def)
    have step: "stop_loop K i r h = stop_loop K (i + 1) r1 h3"
      unfolding h3 sc_def r1_def ev_def
      using True rd by (intro stop_loop_step) (simp_all add: ev_def)
    have a1: "answered K h sc"
      using rd by (simp add: sc_def)
    from "1.IH" [OF True ev_def rd [symmetric] refl h1_def r1_def h2_def h3_def]
    obtain ext where e: "snd (stop_loop K (i + 1) r1 h3) = h3 @ ext" "answered K h3 ext" by blast
    show ?thesis
      using e a1 by (intro exI [of _ "sc @ ext"]) (simp add: step h3 answered_append)
  qed
qed

lemma open_loop_answered:
  "\<exists>ext. snd (open_loop K i r h) = h @ ext \<and> answered K h ext"
proof (induction K i r h rule: open_loop.induct)
  case (1 K i r h)
  show ?case
  proof (cases "i < length (events r)")
    case False
    then show ?thesis by (intro exI [of _ "[]"]) (simp add: open_loop_done)
  next
    case True
    define ev where "ev = events r ! i"
    define ret where "ret = perf_event_open K h (pe ev)"
    show ?thesis
    proof (cases "ret < 0")
      case neg: True
      show ?thesis
        using True neg
        by (intro exI [of _ "[PerfEventOpen (pe ev) ret, Cerr (''Error opening counter '' @ names r ! i)]"])
           (simp add: open_loop_fail ret_def ev_def)
    next
      case nonneg: False
      define r1 where "r1 = r\<lparr>events := (events r)[i := ev\<lparr>fd := ret\<rparr>]\<rparr>"
      define h1 where "h1 = h @ [PerfEventOpen (pe ev) ret]"
      have step: "open_loop K i r h = open_loop K (i + 1) r1 h1"
        using True nonneg by (simp add: open_loop_step ret_def ev_def r1_def h1_def)
      from "1.IH" [OF True ev_def ret_def h1_def r1_def nonneg]
      obtain ext where e: "snd (open_loop K (i + 1) r1 h1) = h1 @ ext" "answered K h1 ext" by blast
      show ?thesis
        using e by (intro exI [of _ "PerfEventOpen (pe ev) ret # ext"]) (simp add: step h1_def ret_def)
    qed
  qed
qed

lemma startCounters_answered:
  "\<exists>ext. snd (startCounters K (r, h)) = h @ ext \<and> answered K h ext"
proof -
  from start_loop_answered [of K 0 r h]
  obtain ext where e: "snd (start_loop K 0 r h) = h @ ext" "answered K h ext" by blast
  then show ?thesis
    by (intro exI [of _ "ext @ [SteadyClockNow (steady_clock_now K (h @ ext))]"])
       (simp add: startCounters_def Let_def split_def answered_append)
qed

lemma stopCounters_answered:
  "\<exists>ext. snd (stopCounters K (r, h)) = h @ ext \<and> answered K h ext"
proof -
  define t where "t = steady_clock_now K h"
  from stop_loop_answered [of K 0 "r\<lparr>stopTime := t\<rparr>" "h @ [SteadyClockNow t]"]
  obtain ext where e: "snd (stop_loop K 0 (r\<lparr>stopTime := t\<rparr>) (h @ [SteadyClockNow t])) = (h @ [SteadyClockNow t]) @ ext"
    "answered K (h @ [SteadyClockNow t]) ext" by blast
  then show ?thesis
    by (intro exI [of _ "SteadyClockNow t # ext"])
       (simp add: stopCounters_def Let_def t_def)
qed

lemma startCounters_full:
  assumes "same_length r"
  shows "\<exists>rs t. length rs = length (events r) \<and>
           t = steady_clock_now K (h @ start_calls (zip (events r) (names r)) rs) \<and>
           startCounters K (r, h) =
             (r\<lparr>events := set_prevs (events r) rs, startTime := t\<rparr>,
              h @ start_calls (zip (events r) (names r)) rs @ [SteadyClockNow t]) \<and>
           answered K h (start_calls (zip (events r) (names r)) rs @ [SteadyClockNow t])"
proof -
  from startCounters_char [OF assms, of K h]
  obtain rs t where c: "length rs = length (events r)"
    "t = steady_clock_now K (h @ start_calls (zip (events r) (names r)) rs)"
    "startCounters K (r, h) =
             (r\<lparr>events := set_prevs (events r) rs, startTime := t\<rparr>,
              h @ start_calls (zip (events r) (names r)) rs @ [SteadyClockNow t])"
    by blast
  from startCounters_answered [of K r h]
  obtain ext where e: "snd (startCounters K (r, h)) = h @ ext" "answered K h ext" by blast
  from e(1) c(3) have "ext = start_calls (zip (events r) (names r)) rs @ [SteadyClockNow t]"
    by simp
  with e(2) c show ?thesis by blast
qed

lemma stopCounters_full:
  assumes "same_length r"
  shows "\<exists>rs t. length rs = length (events r) \<and> t = steady_clock_now K h \<and>
           stopCounters K (r, h) =
             (r\<lparr>events := set_datas (events r) rs, stopTime := t\<rparr>,
              h @ [SteadyClockNow t] @ stop_calls (zip (events r) (names r)) rs) \<and>
           answered K h ([SteadyClockNow t] @ stop_calls (zip (events r) (names r)) rs)"
proof -
  from stopCounters_char [OF assms, of K h]
  obtain rs t where c: "length rs = length (events r)" "t = steady_clock_now K h"
    "stopCounters K (r, h) =
             (r\<lparr>events := set_datas (events r) rs, stopTime := t\<rparr>,
              h @ [SteadyClockNow t] @ stop_calls (zip (events r) (names r)) rs)"
    by blast
  from stopCounters_answered [of K r h]
  obtain ext where e: "snd (stopCounters K (r, h)) = h @ ext" "answered K h ext" by blast
  from e(1) c(3) have "ext = [SteadyClockNow t] @ stop_calls (zip (events r) (names r)) rs"
    by simp
  with e(2) c show ?thesis by blast
qed

section \<open>Construction, use and destruction\<close>

subsection \<open>Projections of the record of calls\<close>

lemma open_results_append [simp]: "open_results (a @ b) = open_results a @ open_results b"
  by (simp add: open_results_def)

lemma open_attrs_append [simp]: "open_attrs (a @ b) = open_attrs a @ open_attrs b"
  by (simp add: open_attrs_def)

lemma closed_fds_append [simp]: "closed_fds (a @ b) = closed_fds a @ closed_fds b"
  by (simp add: closed_fds_def)

lemma open_results_simps [simp]:
  "open_results [] = []"
  "open_results (PerfEventOpen a ret # cs) = ret # open_results cs"
  "open_results (IoctlReset d # cs) = open_results cs"
  "open_results (IoctlEnable d # cs) = open_results cs"
  "open_results (IoctlDisable d # cs) = open_results cs"
  "open_results (Read d n st # cs) = open_results cs"
  "open_results (Close d # cs) = open_results cs"
  "open_results (SteadyClockNow t # cs) = open_results cs"
  "open_results (Cerr m # cs) = open_results cs"
  by (simp_all add: open_results_def)

lemma open_attrs_simps [simp]:
  "open_attrs [] = []"
  "open_attrs (PerfEventOpen a ret # cs) = a # open_attrs cs"
  "open_attrs (IoctlReset d # cs) = open_attrs cs"
  "open_attrs (IoctlEnable d # cs) = open_attrs cs"
  "open_attrs (IoctlDisable d # cs) = open_attrs cs"
  "open_attrs (Read d n st # cs) = open_attrs cs"
  "open_attrs (Close d # cs) = open_attrs cs"
  "open_attrs (SteadyClockNow t # cs) = open_attrs cs"
  "open_attrs (Cerr m # cs) = open_attrs cs"
  by (simp_all add: open_attrs_def)

lemma closed_fds_simps [simp]:
  "closed_fds [] = []"
  "closed_fds (PerfEventOpen a ret # cs) = closed_fds cs"
  "closed_fds (IoctlReset d # cs) = closed_fds cs"
  "closed_fds (IoctlEnable d # cs) = closed_fds cs"
  "closed_fds (IoctlDisable d # cs) = closed_fds cs"
  "closed_fds (Read d n st # cs) = closed_fds cs"
  "closed_fds (Close d # cs) = d # closed_fds cs"
  "closed_fds (SteadyClockNow t # cs) = closed_fds cs"
  "closed_fds (Cerr m # cs) = closed_fds cs"
  by (simp_all add: closed_fds_def)

lemma open_results_open_calls: "open_results (open_calls zs rets) = take (length zs) rets"
  by (induction zs rets rule: open_calls.induct) simp_all

lemma open_attrs_open_calls:
  "open_attrs (open_calls zs rets) = map (\<lambda>z. pe (fst z)) (take (length rets) zs)"
  by (induction zs rets rule: open_calls.induct) simp_all

lemma closed_fds_open_calls [simp]: "closed_fds (open_calls zs rets) = []"
  by (induction zs rets rule: open_calls.induct) simp_all

lemma open_results_start_calls [simp]: "open_results (start_calls zs rs) = []"
  by (induction zs rs rule: start_calls.induct) simp_all

lemma closed_fds_start_calls [simp]: "closed_fds (start_calls zs rs) = []"
  by (induction zs rs rule: start_calls.induct) simp_all

lemma open_results_stop_calls [simp]: "open_results (stop_calls zs rs) = []"
  by (induction zs rs rule: stop_calls.induct) simp_all

lemma closed_fds_stop_calls [simp]: "closed_fds (stop_calls zs rs) = []"
  by (induction zs rs rule: stop_calls.induct) simp_all

lemma closed_fds_map_Close [simp]: "closed_fds (map (\<lambda>ev. Close (fd ev)) evs) = map fd evs"
  by (induction evs) simp_all

lemma open_results_map_Close [simp]: "open_results (map (\<lambda>ev. Close (fd ev)) evs) = []"
  by (induction evs) simp_all

subsection \<open>Registration\<close>

lemma registerCounter_eq:
  "registerCounter sz name type eventID excl_user r =
     r\<lparr>names := names r @ [name],
       events := events r @ [new_event\<lparr>pe := requested_attr sz type eventID excl_user\<rparr>]\<rparr>"
  by (simp add: registerCounter_def requested_attr_def zero_attr_def Let_def)

lemma register_all_eq:
  "register_all sz specs r =
     r\<lparr>names := names r @ map fst specs,
       events := events r @
         map (\<lambda>(name, type, eventID, excl_user).
                new_event\<lparr>pe := requested_attr sz type eventID excl_user\<rparr>) specs\<rparr>"
  unfolding register_all_def registerCounter_eq
proof (induction specs arbitrary: r)
  case Nil
  show ?case by simp
next
  case (Cons s specs)
  show ?case by (cases s) (simp add: Cons.IH)
qed

lemma register_defaults_eq: "register_defaults sz r = register_all sz default_counters r"
  by (simp add: register_defaults_def register_all_def default_counters_def Let_def)

lemma same_length_register_all:
  "same_length r \<Longrightarrow> same_length (register_all sz specs r)"
  by (simp add: register_all_eq same_length_def)

lemma same_length_init [simp]: "same_length PerfEvent_init"
  by (simp add: same_length_def PerfEvent_init_def)

subsection \<open>The constructor\<close>

lemma list_all_butlast: "list_all P xs \<Longrightarrow> list_all P (butlast xs)"
  by (induction xs) auto

lemma map_pe_set_fds:
  "length rets = length evs \<Longrightarrow> map pe (set_fds evs rets) = map pe evs"
  unfolding set_fds_def by (induction evs rets rule: list_induct2') auto

lemma map_fd_set_fds:
  "length rets = length evs \<Longrightarrow> map fd (set_fds evs rets) = rets"
  unfolding set_fds_def by (induction evs rets rule: list_induct2') auto

lemma length_set_fds [simp]: "length (set_fds evs rets) = min (length evs) (length rets)"
  by (simp add: set_fds_def)

text \<open>What opening a well-formed registry from its first counter does.\<close>

lemma open_all_char:
  assumes "same_length r0" "open_loop K 0 r0 h = (r, h')"
  shows "\<exists>rets. length rets \<le> length (events r0) \<and>
           h' = h @ open_calls (zip (events r0) (names r0)) rets \<and>
           open_results (drop (length h) h') = rets \<and>
           answered K h (drop (length h) h') \<and>
           (if list_all (\<lambda>x. 0 \<le> x) rets
            then length rets = length (events r0) \<and> r = r0\<lparr>events := set_fds (events r0) rets\<rparr>
            else r = r0\<lparr>events := [], names := []\<rparr>)"
proof -
  from open_loop_answered [of K 0 r0 h] assms(2)
  have ans: "answered K h (drop (length h) h')" by auto
  from open_loop_char [OF assms(1), of 0 K h]
  obtain rets where len: "length rets \<le> length (events r0)"
    and tr: "snd (open_loop K 0 r0 h) = h @ open_calls (zip (events r0) (names r0)) rets"
    and res: "if list_all (\<lambda>x. 0 \<le> x) rets
            then length rets = length (events r0) \<and>
                 fst (open_loop K 0 r0 h) = r0\<lparr>events := set_fds (events r0) rets\<rparr>
            else fst (open_loop K 0 r0 h) = r0\<lparr>events := [], names := []\<rparr>"
    by auto
  have h': "h' = h @ open_calls (zip (events r0) (names r0)) rets" using tr assms(2) by simp
  have "open_results (drop (length h) h') = rets"
    using len assms(1) by (simp add: h' open_results_open_calls same_length_def)
  with len h' res assms(2) ans show ?thesis by (intro exI [of _ rets]) (simp split: if_splits)
qed


text \<open>The constructor leaves the two vectors equally long, whatever the kernel answers.\<close>

lemma ctor_same_length: "same_length (fst (PerfEvent_ctor sz K h))"
proof -
  define r0 where "r0 = register_defaults sz PerfEvent_init"
  have sl0: "same_length r0" by (simp add: r0_def register_defaults_eq same_length_register_all)
  obtain r h' where c: "open_loop K 0 r0 h = (r, h')" by (cases "open_loop K 0 r0 h")
  from open_all_char [OF sl0 c]
  obtain rets where "length rets \<le> length (events r0)"
    and "if list_all (\<lambda>x. 0 \<le> x) rets
            then length rets = length (events r0) \<and> r = r0\<lparr>events := set_fds (events r0) rets\<rparr>
            else r = r0\<lparr>events := [], names := []\<rparr>"
    by auto
  then have "same_length r" using sl0 by (auto simp: same_length_def split: if_splits)
  then show ?thesis by (simp add: PerfEvent_ctor_def r0_def [symmetric] c)
qed

subsection \<open>Use and destruction\<close>

lemma PerfEvent_dtor_eq: "PerfEvent_dtor (r, h) = h @ map (\<lambda>ev. Close (fd ev)) (events r)"
proof -
  have "foldl (\<lambda>h ev. h @ [Close (fd ev)]) h evs = h @ map (\<lambda>ev. Close (fd ev)) evs" for evs
    by (induction evs arbitrary: h) simp_all
  then show ?thesis by (simp add: PerfEvent_dtor_def)
qed

lemma startCounters_empty:
  "events r = [] \<Longrightarrow>
   startCounters K (r, h) =
     (r\<lparr>startTime := steady_clock_now K h\<rparr>, h @ [SteadyClockNow (steady_clock_now K h)])"
  by (simp add: startCounters_def start_loop.simps Let_def)

lemma stopCounters_empty:
  "events r = [] \<Longrightarrow>
   stopCounters K (r, h) =
     (r\<lparr>stopTime := steady_clock_now K h\<rparr>, h @ [SteadyClockNow (steady_clock_now K h)])"
  by (simp add: stopCounters_def stop_loop.simps Let_def)

text \<open>On a registry without events, starting and stopping only read the clock.\<close>

lemma run_ops_empty:
  assumes "events r = []"
  shows "\<exists>a b ext. run_ops K ops (r, h) = (r\<lparr>startTime := a, stopTime := b\<rparr>, h @ ext) \<and>
           list_all is_clock ext \<and> length ext = length ops \<and> answered K h ext"
  using assms
proof (induction ops arbitrary: r h)
  case Nil
  show ?case
    by (intro exI [of _ "startTime r"] exI [of _ "stopTime r"] exI [of _ "[]"]) simp
next
  case (Cons x ops)
  define t where "t = steady_clock_now K h"
  show ?case
  proof (cases x)
    case Start
    have e: "events (r\<lparr>startTime := t\<rparr>) = []" using Cons.prems by simp
    from Cons.IH [OF e, of "h @ [SteadyClockNow t]"]
    obtain a b ext where
      "run_ops K ops (r\<lparr>startTime := t\<rparr>, h @ [SteadyClockNow t]) =
         (r\<lparr>startTime := t, startTime := a, stopTime := b\<rparr>, (h @ [SteadyClockNow t]) @ ext)"
      "list_all is_clock ext" "length ext = length ops"
      "answered K (h @ [SteadyClockNow t]) ext" by auto
    then show ?thesis
      using Cons.prems
      by (intro exI [of _ a] exI [of _ b] exI [of _ "SteadyClockNow t # ext"])
         (simp add: Start startCounters_empty t_def)
  next
    case Stop
    have e: "events (r\<lparr>stopTime := t\<rparr>) = []" using Cons.prems by simp
    from Cons.IH [OF e, of "h @ [SteadyClockNow t]"]
    obtain a b ext where
      "run_ops K ops (r\<lparr>stopTime := t\<rparr>, h @ [SteadyClockNow t]) =
         (r\<lparr>stopTime := t, startTime := a, stopTime := b\<rparr>, (h @ [SteadyClockNow t]) @ ext)"
      "list_all is_clock ext" "length ext = length ops"
      "answered K (h @ [SteadyClockNow t]) ext" by auto
    then show ?thesis
      using Cons.prems
      by (intro exI [of _ a] exI [of _ b] exI [of _ "SteadyClockNow t # ext"])
         (simp add: Stop stopCounters_empty t_def)
  qed
qed

lemma map_fd_set_datas:
  "length rs = length evs \<Longrightarrow> map fd (set_datas evs rs) = map fd evs"
  unfolding set_datas_def
  by (induction evs rs rule: list_induct2') auto

lemma length_set_prevs [simp]: "length (set_prevs evs rs) = min (length evs) (length rs)"
  by (simp add: set_prevs_def)

lemma length_set_datas [simp]: "length (set_datas evs rs) = min (length evs) (length rs)"
  by (simp add: set_datas_def)

text \<open>Starting and stopping keep the descriptors and neither open nor close anything.\<close>

lemma run_ops_char:
  assumes "same_length r"
  shows "\<exists>r' ext. run_ops K ops (r, h) = (r', h @ ext) \<and> map fd (events r') = map fd (events r) \<and>
           same_length r' \<and> open_results ext = [] \<and> closed_fds ext = []"
  using assms
proof (induction ops arbitrary: r h)
  case Nil
  then show ?case by (intro exI [of _ r] exI [of _ "[]"]) simp
next
  case (Cons x ops)
  have "\<exists>r1 e1. (case x of Start \<Rightarrow> startCounters K (r, h) | Stop \<Rightarrow> stopCounters K (r, h)) = (r1, h @ e1) \<and>
          map fd (events r1) = map fd (events r) \<and> same_length r1 \<and>
          open_results e1 = [] \<and> closed_fds e1 = []"
  proof (cases x)
    case Start
    from startCounters_char [OF Cons.prems, of K h]
    obtain rs t where "length rs = length (events r)"
      "startCounters K (r, h) =
             (r\<lparr>events := set_prevs (events r) rs, startTime := t\<rparr>,
              h @ start_calls (zip (events r) (names r)) rs @ [SteadyClockNow t])" by auto
    then show ?thesis using Cons.prems
      by (intro exI [of _ "r\<lparr>events := set_prevs (events r) rs, startTime := t\<rparr>"]
                exI [of _ "start_calls (zip (events r) (names r)) rs @ [SteadyClockNow t]"])
         (simp add: Start map_fd_set_prevs same_length_def)
  next
    case Stop
    from stopCounters_char [OF Cons.prems, of K h]
    obtain rs t where "length rs = length (events r)"
      "stopCounters K (r, h) =
             (r\<lparr>events := set_datas (events r) rs, stopTime := t\<rparr>,
              h @ [SteadyClockNow t] @ stop_calls (zip (events r) (names r)) rs)" by auto
    then show ?thesis using Cons.prems
      by (intro exI [of _ "r\<lparr>events := set_datas (events r) rs, stopTime := t\<rparr>"]
                exI [of _ "[SteadyClockNow t] @ stop_calls (zip (events r) (names r)) rs"])
         (simp add: Stop map_fd_set_datas same_length_def)
  qed
  then obtain r1 e1 where
    s1: "(case x of Start \<Rightarrow> startCounters K (r, h) | Stop \<Rightarrow> stopCounters K (r, h)) = (r1, h @ e1)"
    and f1: "map fd (events r1) = map fd (events r)" and sl: "same_length r1"
    and o1: "open_results e1 = []" "closed_fds e1 = []" by blast
  from Cons.IH [OF sl, of "h @ e1"]
  obtain r' ext where
    "run_ops K ops (r1, h @ e1) = (r', (h @ e1) @ ext)" "map fd (events r') = map fd (events r1)"
    "same_length r'" "open_results ext = []" "closed_fds ext = []" by blast
  moreover have "run_ops K (x # ops) (r, h) = run_ops K ops (r1, h @ e1)"
    using s1 by (cases x) simp_all
  ultimately show ?case using f1 o1
    by (intro exI [of _ r'] exI [of _ "e1 @ ext"]) simp
qed

text \<open>
  When every counter opens, the destructor closes exactly the descriptors the opens
  returned, in order, whatever was started and stopped in between.
\<close>

lemma lifetime_closes_what_it_opened:
  assumes "\<forall>ret \<in> set (open_results (drop (length h) (lifetime sz K ops h))). 0 \<le> ret"
  shows "closed_fds (drop (length h) (lifetime sz K ops h))
           = open_results (drop (length h) (lifetime sz K ops h))"
proof -
  define r0 where "r0 = register_defaults sz PerfEvent_init"
  have sl0: "same_length r0" by (simp add: r0_def register_defaults_eq same_length_register_all)
  obtain r h' where c: "open_loop K 0 r0 h = (r, h')" by (cases "open_loop K 0 r0 h")
  from open_all_char [OF sl0 c]
  obtain rets where len: "length rets \<le> length (events r0)"
    and h': "h' = h @ open_calls (zip (events r0) (names r0)) rets"
    and res: "if list_all (\<lambda>x. 0 \<le> x) rets
            then length rets = length (events r0) \<and> r = r0\<lparr>events := set_fds (events r0) rets\<rparr>
            else r = r0\<lparr>events := [], names := []\<rparr>"
    by auto
  have sl: "same_length r" using res sl0 len by (auto simp: same_length_def split: if_splits)
  from run_ops_char [OF sl, of K ops h']
  obtain r' ext where run: "run_ops K ops (r, h') = (r', h' @ ext)"
    and fds: "map fd (events r') = map fd (events r)"
    and ext: "open_results ext = []" "closed_fds ext = []" by blast
  have life: "lifetime sz K ops h
      = h @ open_calls (zip (events r0) (names r0)) rets @ ext @ map (\<lambda>ev. Close (fd ev)) (events r')"
    using run by (simp add: lifetime_def PerfEvent_ctor_def r0_def [symmetric] c PerfEvent_dtor_eq h')
  have opens: "open_results (drop (length h) (lifetime sz K ops h)) = rets"
    using len sl0 by (simp add: life ext open_results_open_calls same_length_def)
  with assms have "list_all (\<lambda>x. 0 \<le> x) rets" by (simp add: list_all_iff)
  with res have "length rets = length (events r0)" "r = r0\<lparr>events := set_fds (events r0) rets\<rparr>"
    by simp_all
  then have "map fd (events r') = rets" using fds by (simp add: map_fd_set_fds)
  then have "closed_fds (drop (length h) (lifetime sz K ops h)) = rets"
    by (simp add: life ext)
  with opens show ?thesis by simp
qed

section \<open>Claims about lookup and derived metrics\<close>

lemma rnd_three_halves: "rnd False (3 / 2) = Finite False (3 / 2)"
  by (subst rnd_eval [where k = 0 and e = "- 52" and r = "3 / 2"])
     (simp_all add: round_half_even_def Let_def power_int_minus floor_rat_numeral_div)

lemma rnd_77_halves: "rnd False (77 / 2) = Finite False (77 / 2)"
  by (subst rnd_eval [where k = 5 and e = "- 47" and r = "77 / 2"])
     (simp_all add: round_half_even_def Let_def power_int_minus floor_rat_numeral_div)

text \<open>A tick difference from 0 to \<open>2 ^ 53\<close> converts to \<^verbatim>\<open>double\<close> without rounding.\<close>

lemma int_to_double_exact:
  assumes "0 \<le> d" "d \<le> 2 ^ 53"
  shows "int_to_double d = Finite False (of_int d)"
proof -
  have "nat d \<le> 2 ^ 53" using assms by (simp add: nat_le_iff)
  then have "rnd False (of_nat (nat d)) = Finite False (of_nat (nat d))" by (rule rnd_of_nat_exact)
  moreover have "(of_nat (nat d) :: rat) = of_int d" using assms(1) by simp
  ultimately show ?thesis using assms(1) by (simp add: int_to_double_def)
qed

text \<open>
  The report of the first synthetic registry, scaled by two: one column per counter in
  registration order, each value divided by the scale, then the scale and the three metrics;
  on one stream the header line comes first, then the data line.
\<close>

lemma ipc_registry_report_streams:
  "printReport_header_data ipc_registry 2 ([], []) =
     ([NameColumn ''instr'' (DoubleCell (Finite False 500)) True,
       NameColumn ''cycle'' (DoubleCell (Finite False 250)) True,
       NameColumn ''instr'' (DoubleCell (Finite False (77 / 2))) True,
       NameColumn ''task'' (DoubleCell (Finite False 1500000000)) True,
       NameColumn ''scale'' (U64Cell 2) True,
       NameColumn ''IPC'' (DoubleCell (getIPC ipc_registry)) True,
       NameColumn ''CPU'' (DoubleCell (getCPUs ipc_registry)) True,
       NameColumn ''GHz'' (DoubleCell (getGHz ipc_registry)) False],
      [ValueColumn ''instr'' (DoubleCell (Finite False 500)) True,
       ValueColumn ''cycle'' (DoubleCell (Finite False 250)) True,
       ValueColumn ''instr'' (DoubleCell (Finite False (77 / 2))) True,
       ValueColumn ''task'' (DoubleCell (Finite False 1500000000)) True,
       ValueColumn ''scale'' (U64Cell 2) True,
       ValueColumn ''IPC'' (DoubleCell (getIPC ipc_registry)) True,
       ValueColumn ''CPU'' (DoubleCell (getCPUs ipc_registry)) True,
       ValueColumn ''GHz'' (DoubleCell (getGHz ipc_registry)) False])"
proof -
  have v: "readCounter (counted_event 1000) = Finite False 1000"
    "readCounter (counted_event 500) = Finite False 500"
    "readCounter (counted_event 77) = Finite False 77"
    "readCounter (counted_event 3000000000) = Finite False 3000000000"
    using readCounter_plain_count [of "counted_event 1000" 1000]
      readCounter_plain_count [of "counted_event 500" 500]
      readCounter_plain_count [of "counted_event 77" 77]
      readCounter_plain_count [of "counted_event 3000000000" 3000000000]
    by (simp_all add: plain_count_counted_event)
  have ev: "events ipc_registry = [counted_event 1000, counted_event 500, counted_event 77,
                 counted_event 3000000000]"
    and nm: "names ipc_registry = [''instr'', ''cycle'', ''instr'', ''task'']"
    by (simp_all add: ipc_registry_def)
  have up: "[0..<4] = [0, 1, 2, 3]" by (simp add: upt_rec)
  show ?thesis
    by (simp add: printReport_header_data_def printCounter_def Let_def ev nm up v
        u64_to_double_def rnd_numeral_exact rnd_77_halves)
qed

lemma ipc_registry_report:
  "printReport ipc_registry 2 [] =
     fst (printReport_header_data ipc_registry 2 ([], [])) @ [LineEnd]
       @ snd (printReport_header_data ipc_registry 2 ([], [])) @ [LineEnd]"
  by (simp add: printReport_def split_def Let_def)

text \<open>
  Claim C4. In a registry whose two vectors have the same length, \<open>getCounter\<close> scans
  the names in registration order: it returns the corrected value of the first counter
  registered under the name, and the double \<open>-1\<close> (negative sign, magnitude one) when no
  counter has the name.
\<close>

theorem getCounter_first_match:
  assumes "same_length r"
  shows "(name \<notin> set (names r) \<longrightarrow> getCounter r name = Finite True 1) \<and>
         (\<forall>k<length (names r). names r ! k = name \<and> (\<forall>j<k. names r ! j \<noteq> name) \<longrightarrow>
            getCounter r name = readCounter (events r ! k))"
  using assms getCounter_miss [of r name] getCounter_hit [of r _ name] by blast

theorem getCounter_first_match_witness:
  "same_length ipc_registry \<and> ''L1-miss'' \<notin> set (names ipc_registry) \<and>
   getCounter ipc_registry ''L1-miss'' = Finite True 1 \<and>
   names ipc_registry ! 0 = ''instr'' \<and> names ipc_registry ! 2 = ''instr'' \<and>
   getCounter ipc_registry ''instr'' = readCounter (events ipc_registry ! 0) \<and>
   readCounter (events ipc_registry ! 0) = Finite False 1000 \<and>
   readCounter (events ipc_registry ! 2) = Finite False 77"
proof -
  have sl: "same_length ipc_registry" by (simp add: same_length_def ipc_registry_def)
  have m: "''L1-miss'' \<notin> set (names ipc_registry)" by (simp add: ipc_registry_def)
  have n: "names ipc_registry ! 0 = ''instr''" "names ipc_registry ! 2 = ''instr''"
    "0 < length (names ipc_registry)" "\<forall>j<0::nat. names ipc_registry ! j \<noteq> ''instr''"
    by (simp_all add: ipc_registry_def)
  have v0: "readCounter (events ipc_registry ! 0) = Finite False 1000"
    using readCounter_plain_count [of "counted_event 1000" 1000]
    by (simp add: ipc_registry_def plain_count_counted_event)
  have v2: "readCounter (events ipc_registry ! 2) = Finite False 77"
    using readCounter_plain_count [of "counted_event 77" 77]
    by (simp add: ipc_registry_def plain_count_counted_event)
  from getCounter_first_match [OF sl, of "''L1-miss''"] m
  have a: "getCounter ipc_registry ''L1-miss'' = Finite True 1" by blast
  from getCounter_first_match [OF sl, of "''instr''"] n
  have b: "getCounter ipc_registry ''instr'' = readCounter (events ipc_registry ! 0)" by blast
  from sl m a n b v0 v2 show ?thesis by blast
qed

text \<open>
  Claim C5. The three metrics are quotients of lookups by name, and with \<open>i\<close>, \<open>c\<close> and
  \<open>t\<close> the first positions of the names \<open>instr\<close>, \<open>cycle\<close> and \<open>task\<close> the lookups are
  the corrected values of those counters: \<open>getIPC\<close> is the corrected value of \<open>instr\<close> divided by that of
  \<open>cycle\<close>, \<open>getCPUs\<close> the corrected value of \<open>task\<close> divided by the duration in seconds
  times \<open>1e9\<close>, and \<open>getGHz\<close> the corrected value of \<open>cycle\<close> divided by that of
  \<open>task\<close>. Counts of 1000 instructions and 500 cycles without multiplexing give an IPC of
  exactly 2; 3000000000 cycles in 1000000000 nanoseconds of task clock give exactly 3 GHz.
  The duration in seconds is the difference of the two time stamps, converted to
  \<^verbatim>\<open>double\<close> and divided by \<open>1e9\<close>: for a difference from 0 to \<open>2 ^ 53\<close> ticks, the double
  nearest to the exact number of seconds. A task clock of 3000000000 nanoseconds in a window
  of 1500000000 ticks gives a duration of 1.5 and exactly 2 CPUs.
\<close>

theorem derived_metrics:
  assumes "same_length r"
    and "i < length (names r)" "names r ! i = ''instr''" "\<forall>j<i. names r ! j \<noteq> ''instr''"
    and "c < length (names r)" "names r ! c = ''cycle''" "\<forall>j<c. names r ! j \<noteq> ''cycle''"
    and "t < length (names r)" "names r ! t = ''task''" "\<forall>j<t. names r ! j \<noteq> ''task''"
  shows "getIPC r = ddiv (getCounter r ''instr'') (getCounter r ''cycle'') \<and>
         getCPUs r = ddiv (getCounter r ''task'') (dmul (getDuration r) (Finite False 1000000000)) \<and>
         getGHz r = ddiv (getCounter r ''cycle'') (getCounter r ''task'') \<and>
         getCounter r ''instr'' = readCounter (events r ! i) \<and>
         getCounter r ''cycle'' = readCounter (events r ! c) \<and>
         getCounter r ''task'' = readCounter (events r ! t) \<and>
         getIPC r = ddiv (readCounter (events r ! i)) (readCounter (events r ! c)) \<and>
         getCPUs r = ddiv (readCounter (events r ! t)) (dmul (getDuration r) (Finite False 1000000000)) \<and>
         getGHz r = ddiv (readCounter (events r ! c)) (readCounter (events r ! t)) \<and>
         (plain_count (events r ! i) 1000 \<and> plain_count (events r ! c) 500 \<longrightarrow>
            getIPC r = Finite False 2) \<and>
         (plain_count (events r ! c) 3000000000 \<and> plain_count (events r ! t) 1000000000 \<longrightarrow>
            getGHz r = Finite False 3) \<and>
         getDuration r = ddiv (int_to_double (stopTime r - startTime r)) (Finite False 1000000000) \<and>
         (0 \<le> stopTime r - startTime r \<and> stopTime r - startTime r \<le> 2 ^ 53 \<longrightarrow>
            getDuration r = rnd False (of_int (stopTime r - startTime r) / 1000000000)) \<and>
         getCPUs r = ddiv (readCounter (events r ! t))
                       (dmul (ddiv (int_to_double (stopTime r - startTime r))
                                   (Finite False 1000000000))
                             (Finite False 1000000000)) \<and>
         (plain_count (events r ! t) 3000000000 \<and> stopTime r - startTime r = 1500000000 \<longrightarrow>
            getDuration r = Finite False (3 / 2) \<and> getCPUs r = Finite False 2)"
proof -
  have gi: "getCounter r ''instr'' = readCounter (events r ! i)"
    using assms(1-4) by (rule getCounter_hit)
  have gc: "getCounter r ''cycle'' = readCounter (events r ! c)"
    using assms(1,5-7) by (rule getCounter_hit)
  have gt: "getCounter r ''task'' = readCounter (events r ! t)"
    using assms(1,8-10) by (rule getCounter_hit)
  have ipc: "getIPC r = Finite False 2"
    if "plain_count (events r ! i) 1000" "plain_count (events r ! c) 500"
    using readCounter_plain_count [OF that(1)] readCounter_plain_count [OF that(2)]
    by (simp add: getIPC_def gi gc rnd_numeral_exact)
  have ghz: "getGHz r = Finite False 3"
    if "plain_count (events r ! c) 3000000000" "plain_count (events r ! t) 1000000000"
    using readCounter_plain_count [OF that(1)] readCounter_plain_count [OF that(2)]
    by (simp add: getGHz_def gt gc rnd_numeral_exact)
  have dur: "getDuration r = rnd False (of_int (stopTime r - startTime r) / 1000000000)"
    if "0 \<le> stopTime r - startTime r" "stopTime r - startTime r \<le> 2 ^ 53"
    using int_to_double_exact [OF that] by (simp add: getDuration_def)
  have d15: "getDuration r = Finite False (3 / 2)" if "stopTime r - startTime r = 1500000000"
    using dur that by (simp add: rnd_three_halves)
  have cpus: "getCPUs r = Finite False 2"
    if "plain_count (events r ! t) 3000000000" "stopTime r - startTime r = 1500000000"
    using readCounter_plain_count [OF that(1)] d15 [OF that(2)]
    by (simp add: getCPUs_def gt rnd_numeral_exact)
  have a: "getIPC r = ddiv (getCounter r ''instr'') (getCounter r ''cycle'') \<and>
         getCPUs r = ddiv (getCounter r ''task'') (dmul (getDuration r) (Finite False 1000000000)) \<and>
         getGHz r = ddiv (getCounter r ''cycle'') (getCounter r ''task'') \<and>
         getCounter r ''instr'' = readCounter (events r ! i) \<and>
         getCounter r ''cycle'' = readCounter (events r ! c) \<and>
         getCounter r ''task'' = readCounter (events r ! t) \<and>
         getIPC r = ddiv (readCounter (events r ! i)) (readCounter (events r ! c)) \<and>
         getCPUs r = ddiv (readCounter (events r ! t)) (dmul (getDuration r) (Finite False 1000000000)) \<and>
         getGHz r = ddiv (readCounter (events r ! c)) (readCounter (events r ! t))"
    by (simp add: getIPC_def getCPUs_def getGHz_def gi gc gt)
  have b: "getDuration r = ddiv (int_to_double (stopTime r - startTime r)) (Finite False 1000000000)"
    by (simp add: getDuration_def)
  have b': "getCPUs r = ddiv (readCounter (events r ! t))
                       (dmul (ddiv (int_to_double (stopTime r - startTime r))
                                   (Finite False 1000000000))
                             (Finite False 1000000000))"
    by (simp add: getCPUs_def gt getDuration_def)
  from a b b' ipc ghz dur d15 cpus show ?thesis by blast
qed

theorem derived_metrics_witness:
  "same_length ipc_registry \<and> same_length ghz_registry \<and> same_length cpus_registry \<and>
   names ipc_registry = [''instr'', ''cycle'', ''instr'', ''task''] \<and>
   names ghz_registry = [''cycle'', ''task'', ''instr''] \<and>
   names cpus_registry = [''task'', ''instr'', ''cycle''] \<and>
   plain_count (events ipc_registry ! 0) 1000 \<and> plain_count (events ipc_registry ! 1) 500 \<and>
   plain_count (events ghz_registry ! 0) 3000000000 \<and>
   plain_count (events ghz_registry ! 1) 1000000000 \<and>
   plain_count (events cpus_registry ! 0) 3000000000 \<and>
   stopTime ipc_registry - startTime ipc_registry = 2000000000 \<and>
   stopTime cpus_registry - startTime cpus_registry = 1500000000 \<and>
   getIPC ipc_registry = Finite False 2 \<and>
   getDuration ipc_registry = Finite False 2 \<and>
   getCPUs ipc_registry = Finite False (3 / 2) \<and>
   getGHz ghz_registry = Finite False 3 \<and>
   getDuration cpus_registry = Finite False (3 / 2) \<and>
   getCPUs cpus_registry = Finite False 2"
proof -
  have sl: "same_length ipc_registry" "same_length ghz_registry" "same_length cpus_registry"
    by (simp_all add: same_length_def ipc_registry_def ghz_registry_def cpus_registry_def)
  have ni: "names ipc_registry = [''instr'', ''cycle'', ''instr'', ''task'']"
    by (simp add: ipc_registry_def)
  have ng: "names ghz_registry = [''cycle'', ''task'', ''instr'']"
    by (simp add: ghz_registry_def)
  have nc: "names cpus_registry = [''task'', ''instr'', ''cycle'']"
    by (simp add: cpus_registry_def)
  have pi: "plain_count (events ipc_registry ! 0) 1000" "plain_count (events ipc_registry ! 1) 500"
    "plain_count (events ipc_registry ! 3) 3000000000"
    by (simp_all add: ipc_registry_def plain_count_counted_event)
  have pg: "plain_count (events ghz_registry ! 0) 3000000000"
    "plain_count (events ghz_registry ! 1) 1000000000"
    by (simp_all add: ghz_registry_def plain_count_counted_event)
  have pc: "plain_count (events cpus_registry ! 0) 3000000000"
    by (simp add: cpus_registry_def plain_count_counted_event)
  have di: "stopTime ipc_registry - startTime ipc_registry = 2000000000"
    by (simp add: ipc_registry_def)
  have dc: "stopTime cpus_registry - startTime cpus_registry = 1500000000"
    by (simp add: cpus_registry_def)
  have "0 < length (names ipc_registry)" "names ipc_registry ! 0 = ''instr''"
    "\<forall>j<0. names ipc_registry ! j \<noteq> ''instr''"
    "1 < length (names ipc_registry)" "names ipc_registry ! 1 = ''cycle''"
    "\<forall>j<1. names ipc_registry ! j \<noteq> ''cycle''"
    "3 < length (names ipc_registry)" "names ipc_registry ! 3 = ''task''"
    "\<forall>j<3. names ipc_registry ! j \<noteq> ''task''"
    by (simp_all add: ni numeral_3_eq_3 less_Suc_eq)
  note I = derived_metrics [OF sl(1) this]
  have "2 < length (names ghz_registry)" "names ghz_registry ! 2 = ''instr''"
    "\<forall>j<2. names ghz_registry ! j \<noteq> ''instr''"
    "0 < length (names ghz_registry)" "names ghz_registry ! 0 = ''cycle''"
    "\<forall>j<0. names ghz_registry ! j \<noteq> ''cycle''"
    "1 < length (names ghz_registry)" "names ghz_registry ! 1 = ''task''"
    "\<forall>j<1. names ghz_registry ! j \<noteq> ''task''"
    by (simp_all add: ng less_Suc_eq numeral_2_eq_2)
  note G = derived_metrics [OF sl(2) this]
  have "1 < length (names cpus_registry)" "names cpus_registry ! 1 = ''instr''"
    "\<forall>j<1. names cpus_registry ! j \<noteq> ''instr''"
    "2 < length (names cpus_registry)" "names cpus_registry ! 2 = ''cycle''"
    "\<forall>j<2. names cpus_registry ! j \<noteq> ''cycle''"
    "0 < length (names cpus_registry)" "names cpus_registry ! 0 = ''task''"
    "\<forall>j<0. names cpus_registry ! j \<noteq> ''task''"
    by (simp_all add: nc less_Suc_eq numeral_2_eq_2)
  note C = derived_metrics [OF sl(3) this]
  from I pi have ipc: "getIPC ipc_registry = Finite False 2" by blast
  from G pg have ghz: "getGHz ghz_registry = Finite False 3" by blast
  from C pc dc have cd: "getDuration cpus_registry = Finite False (3 / 2)"
    and cc: "getCPUs cpus_registry = Finite False 2" by blast+
  have r2: "0 \<le> stopTime ipc_registry - startTime ipc_registry"
    "stopTime ipc_registry - startTime ipc_registry \<le> 2 ^ 53" by (simp_all add: di)
  from I r2 have "getDuration ipc_registry
      = rnd False (of_int (stopTime ipc_registry - startTime ipc_registry) / 1000000000)"
    by blast
  then have id: "getDuration ipc_registry = Finite False 2"
    by (simp add: di rnd_numeral_exact)
  from I have "getCPUs ipc_registry = ddiv (readCounter (events ipc_registry ! 3))
                (dmul (getDuration ipc_registry) (Finite False 1000000000))" by blast
  moreover have "readCounter (events ipc_registry ! 3) = Finite False 3000000000"
    using readCounter_plain_count [OF pi(3)] by simp
  ultimately have cpus: "getCPUs ipc_registry = Finite False (3 / 2)"
    by (simp add: id rnd_numeral_exact rnd_three_halves)
  from sl ni ng nc pi(1,2) pg pc di dc ipc id cpus ghz cd cc show ?thesis by blast
qed

text \<open>
  Claim C10. On a registry with no events every lookup returns \<open>-1\<close>, so \<open>getIPC\<close> and
  \<open>getGHz\<close> both return \<open>-1 / -1\<close>, which is exactly 1.
\<close>

theorem empty_registry_metrics:
  assumes "events r = []"
  shows "(\<forall>name. getCounter r name = Finite True 1) \<and>
         getIPC r = Finite False 1 \<and> getGHz r = Finite False 1"
proof -
  have g: "getCounter r name = Finite True 1" for name
    using assms by (simp add: getCounter_def getCounter_loop.simps)
  then show ?thesis by (simp add: getIPC_def getGHz_def)
qed

theorem empty_registry_metrics_witness:
  "events PerfEvent_init = [] \<and> getCounter PerfEvent_init ''cycle'' = Finite True 1 \<and>
   getIPC PerfEvent_init = Finite False 1 \<and> getGHz PerfEvent_init = Finite False 1"
proof -
  have e: "events PerfEvent_init = []" by (simp add: PerfEvent_init_def)
  from empty_registry_metrics [OF e] e show ?thesis by blast
qed

section \<open>Claims about starting and stopping\<close>

lemma two_counters_start:
  "startCounters full_kernel (two_counters, []) =
     (two_counters
        \<lparr>events :=
           [new_event\<lparr>fd := 3, prev := \<lparr>rf_value = 2, time_enabled = 10, time_running = 10, rf_id = 0\<rparr>\<rparr>,
            new_event\<lparr>fd := 4, prev := \<lparr>rf_value = 42, time_enabled = 0, time_running = 0, rf_id = 0\<rparr>\<rparr>],
         startTime := 7\<rparr>,
      [IoctlReset 3, IoctlEnable 3, Read 3 24 [2, 10, 10],
       IoctlReset 4, IoctlEnable 4, Read 4 8 [42], Cerr ''Error reading counter instr'',
       SteadyClockNow 7])"
  by (simp add: startCounters_def start_loop.simps two_counters_def full_kernel_def Let_def
      PerfEvent_init_def new_event_def zero_read_format_def)

lemma two_counters_stop:
  "snd (stopCounters full_kernel (two_counters, [])) =
      [SteadyClockNow 0, Read 3 24 [1, 10, 10], IoctlDisable 3,
       Read 4 8 [42], Cerr ''Error reading counter instr'', IoctlDisable 4]"
  by (simp add: stopCounters_def stop_loop.simps two_counters_def full_kernel_def Let_def
      PerfEvent_init_def new_event_def zero_read_format_def)

lemma two_counters_start_stop:
  "snd (stopCounters full_kernel (startCounters full_kernel (two_counters, []))) =
      [IoctlReset 3, IoctlEnable 3, Read 3 24 [2, 10, 10],
       IoctlReset 4, IoctlEnable 4, Read 4 8 [42], Cerr ''Error reading counter instr'',
       SteadyClockNow 7,
       SteadyClockNow 8, Read 3 24 [9, 10, 10], IoctlDisable 3,
       Read 4 8 [42], Cerr ''Error reading counter instr'', IoctlDisable 4]"
  by (simp add: two_counters_start)
     (simp add: stopCounters_def stop_loop.simps two_counters_def full_kernel_def Let_def
      PerfEvent_init_def new_event_def zero_read_format_def)

text \<open>
  Claim C6. \<open>startCounters\<close> goes through the counters in registration order and for each
  one resets it, enables it and reads three fields into its baseline snapshot; a read
  whose result is not 24 bytes is followed by a diagnostic on the error stream and the loop
  goes on with the next counter. The steady clock is read once, after the last counter, and
  stored as the start time. Here \<open>rs\<close> lists, per counter, what the read returned, and
  \<open>answered\<close> says that these are the kernel's answers at the moment of each call.
\<close>

theorem startCounters_order:
  assumes "same_length r"
  shows "\<exists>rs t. length rs = length (events r) \<and>
           t = steady_clock_now K (h @ start_calls (zip (events r) (names r)) rs) \<and>
           startCounters K (r, h) =
             (r\<lparr>events := set_prevs (events r) rs, startTime := t\<rparr>,
              h @ start_calls (zip (events r) (names r)) rs @ [SteadyClockNow t]) \<and>
           answered K h (start_calls (zip (events r) (names r)) rs @ [SteadyClockNow t])"
proof -
  from startCounters_full [OF assms, of K h]
  obtain rs t where "length rs = length (events r)"
    and "t = steady_clock_now K (h @ start_calls (zip (events r) (names r)) rs)"
    and "startCounters K (r, h) =
             (r\<lparr>events := set_prevs (events r) rs, startTime := t\<rparr>,
              h @ start_calls (zip (events r) (names r)) rs @ [SteadyClockNow t])"
    and "answered K h (start_calls (zip (events r) (names r)) rs @ [SteadyClockNow t])"
    by blast
  then show ?thesis by (intro exI [of _ rs] exI [of _ t] conjI)
qed

theorem startCounters_order_witness:
  "same_length two_counters \<and>
   (\<exists>rs. length rs = length (events two_counters) \<and>
      snd (startCounters full_kernel (two_counters, []))
        = start_calls (zip (events two_counters) (names two_counters)) rs @ [SteadyClockNow 7]) \<and>
   snd (startCounters full_kernel (two_counters, [])) =
      [IoctlReset 3, IoctlEnable 3, Read 3 24 [2, 10, 10],
       IoctlReset 4, IoctlEnable 4, Read 4 8 [42], Cerr ''Error reading counter instr'',
       SteadyClockNow 7] \<and>
   map prev (events (fst (startCounters full_kernel (two_counters, [])))) =
      [\<lparr>rf_value = 2, time_enabled = 10, time_running = 10, rf_id = 0\<rparr>,
       \<lparr>rf_value = 42, time_enabled = 0, time_running = 0, rf_id = 0\<rparr>] \<and>
   startTime (fst (startCounters full_kernel (two_counters, []))) = 7"
proof -
  have sl: "same_length two_counters" by (simp add: same_length_def two_counters_def)
  from startCounters_order [OF sl, of full_kernel "[]"]
  obtain rs t where len: "length rs = length (events two_counters)"
    and eq: "startCounters full_kernel (two_counters, []) =
             (two_counters\<lparr>events := set_prevs (events two_counters) rs, startTime := t\<rparr>,
              [] @ start_calls (zip (events two_counters) (names two_counters)) rs @ [SteadyClockNow t])"
    by blast
  have "t = 7" using eq by (simp add: two_counters_start)
  with eq have "snd (startCounters full_kernel (two_counters, []))
        = start_calls (zip (events two_counters) (names two_counters)) rs @ [SteadyClockNow 7]"
    by simp
  with len have ex: "\<exists>rs. length rs = length (events two_counters) \<and>
      snd (startCounters full_kernel (two_counters, []))
        = start_calls (zip (events two_counters) (names two_counters)) rs @ [SteadyClockNow 7]"
    by blast
  show ?thesis
    apply (intro conjI)
        apply (rule sl)
       apply (rule ex)
      apply (simp_all add: two_counters_start)
    done
qed

text \<open>
  Claim C7. \<open>stopCounters\<close> reads the steady clock first and stores it as the stop time,
  then for each counter in registration order reads the final snapshot and disables the
  counter. So when a region runs between \<open>startCounters\<close> and \<open>stopCounters\<close>, the two
  clock readings are the calls next to the region on either side, and all per-counter calls
  lie outside them.
\<close>

theorem stopCounters_order:
  assumes "same_length r"
  shows "(\<exists>rs t. length rs = length (events r) \<and> t = steady_clock_now K h \<and>
            stopCounters K (r, h) =
              (r\<lparr>events := set_datas (events r) rs, stopTime := t\<rparr>,
               h @ [SteadyClockNow t] @ stop_calls (zip (events r) (names r)) rs) \<and>
            answered K h ([SteadyClockNow t] @ stop_calls (zip (events r) (names r)) rs)) \<and>
         (\<exists>rs1 t1 rs2 t2. length rs1 = length (events r) \<and> length rs2 = length (events r) \<and>
            snd (stopCounters K (fst (startCounters K (r, h)), snd (startCounters K (r, h)) @ region))
              = h @ start_calls (zip (events r) (names r)) rs1 @ [SteadyClockNow t1] @ region
                  @ [SteadyClockNow t2] @ stop_calls (zip (events r) (names r)) rs2)"
proof
  show "\<exists>rs t. length rs = length (events r) \<and> t = steady_clock_now K h \<and>
            stopCounters K (r, h) =
              (r\<lparr>events := set_datas (events r) rs, stopTime := t\<rparr>,
               h @ [SteadyClockNow t] @ stop_calls (zip (events r) (names r)) rs) \<and>
            answered K h ([SteadyClockNow t] @ stop_calls (zip (events r) (names r)) rs)"
    using assms by (rule stopCounters_full)
next
  from startCounters_char [OF assms, of K h]
  obtain rs1 t1 where l1: "length rs1 = length (events r)"
    and s1: "startCounters K (r, h) =
             (r\<lparr>events := set_prevs (events r) rs1, startTime := t1\<rparr>,
              h @ start_calls (zip (events r) (names r)) rs1 @ [SteadyClockNow t1])"
    by blast
  define r1 where "r1 = r\<lparr>events := set_prevs (events r) rs1, startTime := t1\<rparr>"
  define h1 where "h1 = (h @ start_calls (zip (events r) (names r)) rs1 @ [SteadyClockNow t1]) @ region"
  have sl1: "same_length r1" using assms l1 by (simp add: r1_def same_length_def)
  have fds: "map fd (events r1) = map fd (events r)" using l1 by (simp add: r1_def map_fd_set_prevs)
  have le: "length (events r1) = length (events r)" using l1 by (simp add: r1_def)
  from stopCounters_char [OF sl1, of K h1]
  obtain rs2 t2 where l2: "length rs2 = length (events r1)"
    and s2: "stopCounters K (r1, h1) =
              (r1\<lparr>events := set_datas (events r1) rs2, stopTime := t2\<rparr>,
               h1 @ [SteadyClockNow t2] @ stop_calls (zip (events r1) (names r1)) rs2)"
    by blast
  have "stop_calls (zip (events r1) (names r1)) rs2 = stop_calls (zip (events r) (names r)) rs2"
    using stop_calls_fd [OF fds] by (simp add: r1_def)
  then have "snd (stopCounters K (fst (startCounters K (r, h)), snd (startCounters K (r, h)) @ region))
              = h @ start_calls (zip (events r) (names r)) rs1 @ [SteadyClockNow t1] @ region
                  @ [SteadyClockNow t2] @ stop_calls (zip (events r) (names r)) rs2"
    using s2 by (simp add: s1 r1_def [symmetric] h1_def [symmetric]) (simp add: h1_def)
  with l1 l2 le show "\<exists>rs1 t1 rs2 t2. length rs1 = length (events r) \<and> length rs2 = length (events r) \<and>
            snd (stopCounters K (fst (startCounters K (r, h)), snd (startCounters K (r, h)) @ region))
              = h @ start_calls (zip (events r) (names r)) rs1 @ [SteadyClockNow t1] @ region
                  @ [SteadyClockNow t2] @ stop_calls (zip (events r) (names r)) rs2"
    by metis
qed

theorem stopCounters_order_witness:
  "same_length two_counters \<and>
   (\<exists>rs. length rs = length (events two_counters) \<and>
      snd (stopCounters full_kernel (two_counters, []))
        = SteadyClockNow 0 # stop_calls (zip (events two_counters) (names two_counters)) rs) \<and>
   snd (stopCounters full_kernel (two_counters, [])) =
      [SteadyClockNow 0, Read 3 24 [1, 10, 10], IoctlDisable 3,
       Read 4 8 [42], Cerr ''Error reading counter instr'', IoctlDisable 4] \<and>
   snd (stopCounters full_kernel (startCounters full_kernel (two_counters, []))) =
      [IoctlReset 3, IoctlEnable 3, Read 3 24 [2, 10, 10],
       IoctlReset 4, IoctlEnable 4, Read 4 8 [42], Cerr ''Error reading counter instr'',
       SteadyClockNow 7,
       SteadyClockNow 8, Read 3 24 [9, 10, 10], IoctlDisable 3,
       Read 4 8 [42], Cerr ''Error reading counter instr'', IoctlDisable 4]"
proof -
  have sl: "same_length two_counters" by (simp add: same_length_def two_counters_def)
  have t0: "steady_clock_now full_kernel [] = 0" by (simp add: full_kernel_def)
  from stopCounters_order [OF sl, of full_kernel "[]"]
  obtain rs t where len: "length rs = length (events two_counters)"
    and t: "t = steady_clock_now full_kernel []"
    and eq: "stopCounters full_kernel (two_counters, []) =
              (two_counters\<lparr>events := set_datas (events two_counters) rs, stopTime := t\<rparr>,
               [] @ [SteadyClockNow t] @ stop_calls (zip (events two_counters) (names two_counters)) rs)"
    by blast
  from eq t t0 have "snd (stopCounters full_kernel (two_counters, []))
        = SteadyClockNow 0 # stop_calls (zip (events two_counters) (names two_counters)) rs"
    by simp
  with len have ex: "\<exists>rs. length rs = length (events two_counters) \<and>
      snd (stopCounters full_kernel (two_counters, []))
        = SteadyClockNow 0 # stop_calls (zip (events two_counters) (names two_counters)) rs"
    by blast
  show ?thesis
    apply (intro conjI)
       apply (rule sl)
      apply (rule ex)
     apply (rule two_counters_stop)
    apply (rule two_counters_start_stop)
    done
qed

section \<open>Claims about construction and destruction\<close>

lemma default_names:
  "map fst default_counters =
     [''cycle'', ''kcycle'', ''scycle'', ''instr'', ''L1-miss'', ''LLC-miss'', ''br-miss'', ''task'']"
  by (simp add: default_counters_def)

lemma full_kernel_ctor_opens:
  "open_results (snd (PerfEvent_ctor 128 full_kernel [])) = [3, 4, 5, 6, 7, 8, 9, 10]"
  by (simp add: PerfEvent_ctor_def register_defaults_eq register_all_eq default_counters_def
      open_loop.simps full_kernel_def Let_def PerfEvent_init_def)

lemma map_pe_take_zip:
  assumes "length ns = length evs"
  shows "map (\<lambda>z. pe (fst z)) (take n (zip evs ns)) = map pe (take n evs)"
proof -
  have "map (\<lambda>z. pe (fst z)) (take n (zip evs ns)) = map pe (map fst (take n (zip evs ns)))"
    by (simp add: comp_def)
  also have "map fst (take n (zip evs ns)) = take n (map fst (zip evs ns))"
    by (simp add: take_map)
  also have "map fst (zip evs ns) = evs" using assms by simp
  finally show ?thesis .
qed

lemma default_exclusions:
  "list_all (\<lambda>(name, type, eventID, excl_user). excl_user \<longleftrightarrow> name = ''kcycle'') default_counters"
  by (simp add: default_counters_def)

lemma full_kernel_ctor_attrs:
  "length (open_attrs (snd (PerfEvent_ctor 128 full_kernel []))) = 8"
  by (simp add: PerfEvent_ctor_def register_defaults_eq register_all_eq default_counters_def
      open_loop.simps full_kernel_def Let_def PerfEvent_init_def)

text \<open>A record made of clock readings holds no open and no close.\<close>

lemma clock_only:
  "list_all is_clock ext \<Longrightarrow> open_results ext = [] \<and> closed_fds ext = []"
proof (induction ext)
  case Nil
  show ?case by simp
next
  case (Cons c ext)
  then show ?case by (cases c) simp_all
qed

lemma getCounter_empty: "events r = [] \<Longrightarrow> getCounter r name = Finite True 1"
  by (simp add: getCounter_def getCounter_loop.simps)

lemma leaky_kernel_ctor:
  "PerfEvent_ctor sz leaky_kernel [] =
     (PerfEvent_init,
      [PerfEventOpen (requested_attr sz PERF_TYPE_HARDWARE PERF_COUNT_HW_CPU_CYCLES False) 3,
       PerfEventOpen (requested_attr sz PERF_TYPE_HARDWARE PERF_COUNT_HW_CPU_CYCLES True) (- 1),
       Cerr ''Error opening counter kcycle''])"
  by (simp add: PerfEvent_ctor_def register_defaults_eq register_all_eq default_counters_def
      open_loop.simps leaky_kernel_def Let_def PerfEvent_init_def)

text \<open>
  Claim C8. When a list of counters is registered on a fresh registry and every open
  succeeds, the registry has one event per registered counter, in registration order: the
  names are the registered names, the attribute blocks the requested ones, position by
  position, and the descriptors the values the opens returned. For the constructor's own
  list these are the eight counters cycle, kcycle, scycle, instr, L1-miss, LLC-miss,
  br-miss, task.
\<close>

theorem open_all_keeps_registration_order:
  assumes "open_loop K 0 (register_all sz specs PerfEvent_init) h = (r, h')"
    and "\<forall>ret \<in> set (open_results (drop (length h) h')). 0 \<le> ret"
  shows "length (events r) = length specs \<and> names r = map fst specs \<and>
         map pe (events r)
           = map (\<lambda>(name, type, eventID, excl_user). requested_attr sz type eventID excl_user) specs \<and>
         map fd (events r) = open_results (drop (length h) h') \<and>
         answered K h (drop (length h) h') \<and>
         (specs = default_counters \<longrightarrow>
            PerfEvent_ctor sz K h = (r, h') \<and> length (events r) = 8 \<and>
            names r = [''cycle'', ''kcycle'', ''scycle'', ''instr'', ''L1-miss'', ''LLC-miss'',
                       ''br-miss'', ''task''])"
proof -
  define r0 where "r0 = register_all sz specs PerfEvent_init"
  have sl0: "same_length r0" by (simp add: r0_def same_length_register_all)
  have ev0: "events r0 = map (\<lambda>(name, type, eventID, excl_user).
                new_event\<lparr>pe := requested_attr sz type eventID excl_user\<rparr>) specs"
    and nm0: "names r0 = map fst specs"
    by (simp_all add: r0_def register_all_eq PerfEvent_init_def)
  from open_all_char [OF sl0 assms(1) [folded r0_def]]
  obtain rets where len: "length rets \<le> length (events r0)"
    and opens: "open_results (drop (length h) h') = rets"
    and ans: "answered K h (drop (length h) h')"
    and res: "if list_all (\<lambda>x. 0 \<le> x) rets
            then length rets = length (events r0) \<and> r = r0\<lparr>events := set_fds (events r0) rets\<rparr>
            else r = r0\<lparr>events := [], names := []\<rparr>"
    by auto
  from assms(2) opens have "list_all (\<lambda>x. 0 \<le> x) rets" by (simp add: list_all_iff)
  with res have l: "length rets = length (events r0)"
    and r: "r = r0\<lparr>events := set_fds (events r0) rets\<rparr>" by simp_all
  have a: "length (events r) = length specs" using l by (simp add: r ev0)
  have b: "names r = map fst specs" by (simp add: r nm0)
  have c: "map pe (events r)
           = map (\<lambda>(name, type, eventID, excl_user). requested_attr sz type eventID excl_user) specs"
    using l by (simp add: r map_pe_set_fds) (simp add: ev0 split_def)
  have d: "map fd (events r) = open_results (drop (length h) h')"
    using l by (simp add: r map_fd_set_fds opens)
  have e: "PerfEvent_ctor sz K h = (r, h') \<and> length (events r) = 8 \<and>
            names r = [''cycle'', ''kcycle'', ''scycle'', ''instr'', ''L1-miss'', ''LLC-miss'',
                       ''br-miss'', ''task'']" if "specs = default_counters"
    using a b assms(1) unfolding that
    by (simp add: PerfEvent_ctor_def register_defaults_eq default_names) (simp add: default_counters_def)
  from a b c d e ans show ?thesis by blast
qed

theorem open_all_keeps_registration_order_witness:
  "PerfEvent_ctor 128 full_kernel []
     = open_loop full_kernel 0 (register_all 128 default_counters PerfEvent_init) [] \<and>
   open_results (snd (PerfEvent_ctor 128 full_kernel [])) = [3, 4, 5, 6, 7, 8, 9, 10] \<and>
   length (events (fst (PerfEvent_ctor 128 full_kernel []))) = 8 \<and>
   names (fst (PerfEvent_ctor 128 full_kernel []))
     = [''cycle'', ''kcycle'', ''scycle'', ''instr'', ''L1-miss'', ''LLC-miss'', ''br-miss'', ''task''] \<and>
   map fd (events (fst (PerfEvent_ctor 128 full_kernel []))) = [3, 4, 5, 6, 7, 8, 9, 10]"
proof -
  obtain r h' where c: "PerfEvent_ctor 128 full_kernel [] = (r, h')"
    by (cases "PerfEvent_ctor 128 full_kernel []")
  then have o: "open_loop full_kernel 0 (register_all 128 default_counters PerfEvent_init) [] = (r, h')"
    by (simp add: PerfEvent_ctor_def register_defaults_eq)
  have res: "open_results h' = [3, 4, 5, 6, 7, 8, 9, 10]"
    using full_kernel_ctor_opens by (simp add: c)
  then have ok: "\<forall>ret \<in> set (open_results (drop (length ([]::call list)) h')). 0 \<le> ret" by simp
  note T = open_all_keeps_registration_order [OF o ok]
  from T have t1: "length (events r) = 8" by blast
  from T have "map fd (events r) = open_results (drop (length ([]::call list)) h')" by blast
  then have t2: "map fd (events r) = open_results h'" by simp
  from T have t3: "names r = [''cycle'', ''kcycle'', ''scycle'', ''instr'', ''L1-miss'',
                ''LLC-miss'', ''br-miss'', ''task'']" by blast
  note t = t1 t2 t3
  show ?thesis using t res by (simp add: c o)
qed

text \<open>
  Claim C9. The \<open>j\<close>-th open request of the constructor carries the attribute block of the
  \<open>j\<close>-th default counter, which is what \<open>registerCounter\<close> stores for any counter:
  disabled, inherited, enabled and running time reported, kernel and hypervisor not
  excluded. User space is excluded exactly in the request for kcycle.
\<close>

theorem open_requests_configuration:
  assumes "PerfEvent_ctor sz K h = (r, h')" and "j < length (open_attrs (drop (length h) h'))"
    and "a = open_attrs (drop (length h) h') ! j"
  shows "j < 8 \<and>
         a = (\<lambda>(name, type, eventID, excl_user). requested_attr sz type eventID excl_user)
               (default_counters ! j) \<and>
         pe (last (events (registerCounter sz name type eventID excl_user r0)))
           = requested_attr sz type eventID excl_user \<and>
         disabled a \<and> inherit a \<and> \<not> inherit_stat a \<and> \<not> exclude_kernel a \<and> \<not> exclude_hv a \<and>
         attr_read_format a = (PERF_FORMAT_TOTAL_TIME_ENABLED OR PERF_FORMAT_TOTAL_TIME_RUNNING) \<and>
         (exclude_user a \<longleftrightarrow> fst (default_counters ! j) = ''kcycle'')"
proof -
  define d0 where "d0 = register_all sz default_counters PerfEvent_init"
  have sl0: "same_length d0" by (simp add: d0_def same_length_register_all)
  have ev0: "events d0 = map (\<lambda>(name, type, eventID, excl_user).
                new_event\<lparr>pe := requested_attr sz type eventID excl_user\<rparr>) default_counters"
    and nm0: "names d0 = map fst default_counters"
    by (simp_all add: d0_def register_all_eq PerfEvent_init_def)
  have n8: "length default_counters = 8" by (simp add: default_counters_def)
  have o: "open_loop K 0 d0 h = (r, h')"
    using assms(1) by (simp add: PerfEvent_ctor_def register_defaults_eq d0_def)
  from open_all_char [OF sl0 o]
  obtain rets where len: "length rets \<le> length (events d0)"
    and h': "h' = h @ open_calls (zip (events d0) (names d0)) rets" by auto
  have oa: "open_attrs (drop (length h) h') = map pe (take (length rets) (events d0))"
    using sl0 by (simp add: h' open_attrs_open_calls map_pe_take_zip same_length_def)
  have jl: "j < length rets" using assms(2) len by (simp add: oa)
  then have j8: "j < 8" using len by (simp add: ev0 n8)
  have a: "a = (\<lambda>(name, type, eventID, excl_user). requested_attr sz type eventID excl_user)
               (default_counters ! j)"
    using jl j8 by (simp add: assms(3) oa ev0 n8 split_def)
  have x: "(\<lambda>(name, type, eventID, excl_user). excl_user \<longleftrightarrow> name = ''kcycle'') (default_counters ! j)"
    using default_exclusions j8 by (simp add: list_all_length n8)
  have reg: "pe (last (events (registerCounter sz name type eventID excl_user r0)))
           = requested_attr sz type eventID excl_user"
    by (simp add: registerCounter_eq)
  show ?thesis
    using j8 a x reg by (simp add: split_def requested_attr_def)
qed

theorem open_requests_configuration_witness:
  "1 < length (open_attrs (snd (PerfEvent_ctor 128 full_kernel []))) \<and>
   fst (default_counters ! 1) = ''kcycle'' \<and>
   exclude_user (open_attrs (snd (PerfEvent_ctor 128 full_kernel [])) ! 1) \<and>
   \<not> exclude_user (open_attrs (snd (PerfEvent_ctor 128 full_kernel [])) ! 0) \<and>
   disabled (open_attrs (snd (PerfEvent_ctor 128 full_kernel [])) ! 1) \<and>
   inherit (open_attrs (snd (PerfEvent_ctor 128 full_kernel [])) ! 1) \<and>
   \<not> exclude_kernel (open_attrs (snd (PerfEvent_ctor 128 full_kernel [])) ! 1) \<and>
   \<not> exclude_hv (open_attrs (snd (PerfEvent_ctor 128 full_kernel [])) ! 1) \<and>
   attr_read_format (open_attrs (snd (PerfEvent_ctor 128 full_kernel [])) ! 1) = 3"
proof -
  obtain r h' where c: "PerfEvent_ctor 128 full_kernel [] = (r, h')"
    by (cases "PerfEvent_ctor 128 full_kernel []")
  have l: "length (open_attrs h') = 8" using full_kernel_ctor_attrs by (simp add: c)
  have j1: "1 < length (open_attrs (drop (length ([]::call list)) h'))" using l by simp
  have j0: "0 < length (open_attrs (drop (length ([]::call list)) h'))" using l by simp
  have k: "fst (default_counters ! 1) = ''kcycle''" "fst (default_counters ! 0) \<noteq> ''kcycle''"
    by (simp_all add: default_counters_def)
  have f: "PERF_FORMAT_TOTAL_TIME_ENABLED OR PERF_FORMAT_TOTAL_TIME_RUNNING = (3 :: 64 word)"
    by (simp add: PERF_FORMAT_TOTAL_TIME_ENABLED_def PERF_FORMAT_TOTAL_TIME_RUNNING_def)
  let ?A = "open_attrs (drop (length ([]::call list)) h')"
  note T1 = open_requests_configuration [OF c j1 refl]
  note T0 = open_requests_configuration [OF c j0 refl]
  from T1 k have a: "exclude_user (?A ! 1)" by blast
  from T0 k have b: "\<not> exclude_user (?A ! 0)" by blast
  from T1 have d: "disabled (?A ! 1)" "inherit (?A ! 1)" "\<not> exclude_kernel (?A ! 1)"
    "\<not> exclude_hv (?A ! 1)" by blast+
  from T1 have "attr_read_format (?A ! 1)
      = (PERF_FORMAT_TOTAL_TIME_ENABLED OR PERF_FORMAT_TOTAL_TIME_RUNNING)" by blast
  then have g: "attr_read_format (?A ! 1) = 3" by (simp only: f)
  from a b d g j1 k(1) show ?thesis by (simp add: c)
qed

text \<open>
  Claim C2, as the code has it. When one open of the constructor fails, both vectors are
  empty. Whatever sequence of starts and stops follows, every one of them makes exactly one
  call, a reading of the steady clock, and nothing but the two time stamps of the registry
  changes: a further \<open>startCounters\<close> stores the clock's answer as the start time, a further
  \<open>stopCounters\<close> as the stop time. Every lookup returns \<open>-1\<close>; \<open>printReport\<close> on a header and
  a data stream writes nothing, and \<open>printReport\<close> on one stream writes two line ends.
\<close>

theorem failed_open_empties_registry:
  assumes "PerfEvent_ctor sz K h = (r, h')"
    and "\<exists>ret \<in> set (open_results (drop (length h) h')). ret < 0"
  shows "events r = [] \<and> names r = [] \<and>
         (\<forall>ops. \<exists>a b ext.
            run_ops K ops (r, h') = (r\<lparr>startTime := a, stopTime := b\<rparr>, h' @ ext) \<and>
            length ext = length ops \<and> list_all is_clock ext \<and> answered K h' ext \<and>
            startCounters K (run_ops K ops (r, h'))
              = (r\<lparr>startTime := steady_clock_now K (h' @ ext), stopTime := b\<rparr>,
                 h' @ ext @ [SteadyClockNow (steady_clock_now K (h' @ ext))]) \<and>
            stopCounters K (run_ops K ops (r, h'))
              = (r\<lparr>startTime := a, stopTime := steady_clock_now K (h' @ ext)\<rparr>,
                 h' @ ext @ [SteadyClockNow (steady_clock_now K (h' @ ext))]) \<and>
            events (fst (run_ops K ops (r, h'))) = [] \<and>
            names (fst (run_ops K ops (r, h'))) = [] \<and>
            (\<forall>name. getCounter (fst (run_ops K ops (r, h'))) name = Finite True 1) \<and>
            (\<forall>n streams.
               printReport_header_data (fst (run_ops K ops (r, h'))) n streams = streams) \<and>
            (\<forall>n out. printReport (fst (run_ops K ops (r, h'))) n out = out @ [LineEnd, LineEnd]))"
proof -
  define r0 where "r0 = register_defaults sz PerfEvent_init"
  have sl0: "same_length r0" by (simp add: r0_def register_defaults_eq same_length_register_all)
  have o: "open_loop K 0 r0 h = (r, h')" using assms(1) by (simp add: PerfEvent_ctor_def r0_def)
  from open_all_char [OF sl0 o]
  obtain rets where opens: "open_results (drop (length h) h') = rets"
    and res: "if list_all (\<lambda>x. 0 \<le> x) rets
            then length rets = length (events r0) \<and> r = r0\<lparr>events := set_fds (events r0) rets\<rparr>
            else r = r0\<lparr>events := [], names := []\<rparr>"
    by auto
  from assms(2) obtain ret where "ret \<in> set rets" "ret < 0" unfolding opens by blast
  then have "\<not> list_all (\<lambda>x. 0 \<le> x) rets" by (force simp: list_all_iff not_le)
  with res have r: "r = r0\<lparr>events := [], names := []\<rparr>" by simp
  then have e: "events r = []" and n: "names r = []" by simp_all
  have "\<exists>a b ext.
            run_ops K ops (r, h') = (r\<lparr>startTime := a, stopTime := b\<rparr>, h' @ ext) \<and>
            length ext = length ops \<and> list_all is_clock ext \<and> answered K h' ext \<and>
            startCounters K (run_ops K ops (r, h'))
              = (r\<lparr>startTime := steady_clock_now K (h' @ ext), stopTime := b\<rparr>,
                 h' @ ext @ [SteadyClockNow (steady_clock_now K (h' @ ext))]) \<and>
            stopCounters K (run_ops K ops (r, h'))
              = (r\<lparr>startTime := a, stopTime := steady_clock_now K (h' @ ext)\<rparr>,
                 h' @ ext @ [SteadyClockNow (steady_clock_now K (h' @ ext))]) \<and>
            events (fst (run_ops K ops (r, h'))) = [] \<and>
            names (fst (run_ops K ops (r, h'))) = [] \<and>
            (\<forall>name. getCounter (fst (run_ops K ops (r, h'))) name = Finite True 1) \<and>
            (\<forall>n streams.
               printReport_header_data (fst (run_ops K ops (r, h'))) n streams = streams) \<and>
            (\<forall>n out. printReport (fst (run_ops K ops (r, h'))) n out = out @ [LineEnd, LineEnd])"
    for ops
  proof -
    from run_ops_empty [OF e, of K ops h']
    obtain a b ext where
      run: "run_ops K ops (r, h') = (r\<lparr>startTime := a, stopTime := b\<rparr>, h' @ ext)"
      and cl: "list_all is_clock ext" and len: "length ext = length ops"
      and ans: "answered K h' ext" by blast
    have e': "events (r\<lparr>startTime := a, stopTime := b\<rparr>) = []" using e by simp
    show ?thesis
      using cl len ans
      by (intro exI [of _ a] exI [of _ b] exI [of _ ext])
         (simp add: run e n getCounter_empty printReport_header_data_def printReport_def
            startCounters_empty [OF e'] stopCounters_empty [OF e'])
  qed
  with e n show ?thesis by blast
qed

theorem failed_open_empties_registry_witness:
  "open_results (snd (PerfEvent_ctor 128 leaky_kernel [])) = [3, - 1] \<and>
   events (fst (PerfEvent_ctor 128 leaky_kernel [])) = [] \<and>
   names (fst (PerfEvent_ctor 128 leaky_kernel [])) = [] \<and>
   run_ops leaky_kernel [Start, Stop] (PerfEvent_ctor 128 leaky_kernel []) =
     (PerfEvent_init\<lparr>startTime := 3, stopTime := 4\<rparr>,
      snd (PerfEvent_ctor 128 leaky_kernel []) @ [SteadyClockNow 3, SteadyClockNow 4]) \<and>
   getCounter (fst (run_ops leaky_kernel [Start, Stop] (PerfEvent_ctor 128 leaky_kernel [])))
     ''cycle'' = Finite True 1 \<and>
   printReport_header_data
     (fst (run_ops leaky_kernel [Start, Stop] (PerfEvent_ctor 128 leaky_kernel []))) 1 ([], [])
     = ([], []) \<and>
   printReport (fst (run_ops leaky_kernel [Start, Stop] (PerfEvent_ctor 128 leaky_kernel []))) 1 []
     = [LineEnd, LineEnd]"
proof -
  let ?h = "[PerfEventOpen (requested_attr 128 PERF_TYPE_HARDWARE PERF_COUNT_HW_CPU_CYCLES False) 3,
       PerfEventOpen (requested_attr 128 PERF_TYPE_HARDWARE PERF_COUNT_HW_CPU_CYCLES True) (- 1),
       Cerr ''Error opening counter kcycle'']"
  let ?st = "run_ops leaky_kernel [Start, Stop] (PerfEvent_init, ?h)"
  have c: "PerfEvent_ctor 128 leaky_kernel [] = (PerfEvent_init, ?h)" by (rule leaky_kernel_ctor)
  have f: "\<exists>ret \<in> set (open_results (drop (length ([]::call list)) ?h)). ret < 0" by simp
  have e: "events PerfEvent_init = []" by (simp add: PerfEvent_init_def)
  have run: "?st = (PerfEvent_init\<lparr>startTime := 3, stopTime := 4\<rparr>,
                    ?h @ [SteadyClockNow 3, SteadyClockNow 4])"
    by (simp add: startCounters_empty stopCounters_empty e) (simp add: leaky_kernel_def)
  note T = failed_open_empties_registry [OF c f]
  from T have g: "getCounter (fst ?st) ''cycle'' = Finite True 1" by blast
  from T have p3: "printReport_header_data (fst ?st) 1 ([], []) = ([], [])" by blast
  from T have "printReport (fst ?st) 1 [] = [] @ [LineEnd, LineEnd]" by blast
  then have p2: "printReport (fst ?st) 1 [] = [LineEnd, LineEnd]" by simp
  from T have en: "events PerfEvent_init = []" "names PerfEvent_init = []" by blast+
  show ?thesis
    unfolding c fst_conv snd_conv
    using run g p3 p2 en by simp
qed

text \<open>
  Claim C2 as stated fails in two respects. On the emptied registry \<open>startCounters\<close> is not
  a no-op: it reads the steady clock and stores the result as the start time. And
  \<open>printReport\<close> on one stream is not a no-op either: it writes two line ends.
\<close>

theorem start_on_emptied_registry_not_noop:
  "open_results (snd (PerfEvent_ctor 128 leaky_kernel [])) = [3, - 1] \<and>
   events (fst (PerfEvent_ctor 128 leaky_kernel [])) = [] \<and>
   startCounters leaky_kernel (PerfEvent_ctor 128 leaky_kernel [])
     \<noteq> PerfEvent_ctor 128 leaky_kernel [] \<and>
   startTime (fst (PerfEvent_ctor 128 leaky_kernel [])) = 0 \<and>
   startTime (fst (startCounters leaky_kernel (PerfEvent_ctor 128 leaky_kernel []))) = 3 \<and>
   snd (startCounters leaky_kernel (PerfEvent_ctor 128 leaky_kernel []))
     = snd (PerfEvent_ctor 128 leaky_kernel []) @ [SteadyClockNow 3] \<and>
   printReport (fst (PerfEvent_ctor 128 leaky_kernel [])) 1 [] = [LineEnd, LineEnd] \<and>
   printReport (fst (PerfEvent_ctor 128 leaky_kernel [])) 1 [] \<noteq> []"
  by (simp add: leaky_kernel_ctor startCounters_empty PerfEvent_init_def
        printReport_def printReport_header_data_def)
     (simp add: leaky_kernel_def)

text \<open>
  Claim C3 does not hold for the code. With a kernel that opens the first counter
  (descriptor 3) and refuses the second, the constructor empties the vector without closing
  descriptor 3, and the destructor finds nothing to close: over the whole lifetime, whatever
  is started and stopped in between, one open succeeded and no descriptor was closed.
  (When every open succeeds the destructor closes exactly what was opened:
  \<open>lifetime_closes_what_it_opened\<close>.)
\<close>

theorem partial_open_leaks_handle:
  "open_results (lifetime sz leaky_kernel ops []) = [3, - 1] \<and>
   closed_fds (lifetime sz leaky_kernel ops []) = []"
proof -
  define H where "H =
      [PerfEventOpen (requested_attr sz PERF_TYPE_HARDWARE PERF_COUNT_HW_CPU_CYCLES False) 3,
       PerfEventOpen (requested_attr sz PERF_TYPE_HARDWARE PERF_COUNT_HW_CPU_CYCLES True) (- 1),
       Cerr ''Error opening counter kcycle'']"
  have c: "PerfEvent_ctor sz leaky_kernel [] = (PerfEvent_init, H)"
    unfolding H_def by (rule leaky_kernel_ctor)
  have e: "events PerfEvent_init = []" by (simp add: PerfEvent_init_def)
  from run_ops_empty [OF e, of leaky_kernel ops H]
  obtain a b ext where
    run: "run_ops leaky_kernel ops (PerfEvent_init, H)
            = (PerfEvent_init\<lparr>startTime := a, stopTime := b\<rparr>, H @ ext)"
    and cl: "list_all is_clock ext"
    by blast
  have "lifetime sz leaky_kernel ops [] = H @ ext"
    by (simp add: lifetime_def c run PerfEvent_dtor_eq e)
  then show ?thesis
    using clock_only [OF cl] by (simp add: H_def)
qed

end
